theory Spec2Isabelle
  imports Main
begin

section \<open>JavaScript values\<close>

text \<open>
  The emitter is untyped JavaScript: every argument is a JavaScript value, and the
  code inspects it with \<^verbatim>\<open>typeof\<close>, \<^verbatim>\<open>Array.isArray\<close>, truthiness and \<^verbatim>\<open>===\<close>.
  Functions, objects and arrays are references: \<open>Fn i\<close>, \<open>Obj i\<close> and \<open>Arr i xs\<close> carry the
  identity \<open>i\<close> of the reference, and \<open>Arr i xs\<close> also the elements the array holds
  (arrays have no holes). A function is the caller's code. What the emitter can observe
  of it is whether a call returns or throws: \<open>Fn i\<close> is a function whose calls return,
  \<open>FnThrows i\<close> one whose calls throw. A function that calls back into the emitter while
  it runs is not represented. Numbers other than \<^verbatim>\<open>NaN\<close> are represented up to \<^verbatim>\<open>===\<close> by
  integers; \<open>NaN\<close> is the one value that is not \<^verbatim>\<open>===\<close> to itself. Symbols are not
  represented.
\<close>

datatype jsval =
    Undefined
  | Null
  | Bool bool
  | Num int
  | Str string
  | Fn nat
  | Obj nat
  | Arr nat "jsval list"
  | NaN
  | FnThrows nat

fun typeof :: "jsval \<Rightarrow> string" where
  "typeof Undefined = ''undefined''"
| "typeof Null = ''object''"
| "typeof (Bool b) = ''boolean''"
| "typeof (Num n) = ''number''"
| "typeof (Str s) = ''string''"
| "typeof (Fn i) = ''function''"
| "typeof (Obj i) = ''object''"
| "typeof (Arr i xs) = ''object''"
| "typeof NaN = ''number''"
| "typeof (FnThrows i) = ''function''"

text \<open>\<open>falsy v\<close> is \<^verbatim>\<open>!v\<close>.\<close>

fun falsy :: "jsval \<Rightarrow> bool" where
  "falsy Undefined = True"
| "falsy Null = True"
| "falsy (Bool b) = (\<not> b)"
| "falsy (Num n) = (n = 0)"
| "falsy (Str s) = (s = [])"
| "falsy (Fn i) = False"
| "falsy (Obj i) = False"
| "falsy (Arr i xs) = False"
| "falsy NaN = True"
| "falsy (FnThrows i) = False"

text \<open>
  Whether \<^verbatim>\<open>v.apply(...)\<close> throws: a function of the second kind throws when it runs, and
  for a value that is not a function the call itself is a \<^verbatim>\<open>TypeError\<close>.
\<close>

fun throws :: "jsval \<Rightarrow> bool" where
  "throws (Fn i) = False"
| "throws v = True"

text \<open>
  \<open>strict_eq a b\<close> is \<^verbatim>\<open>a === b\<close>: primitives by value, references by identity, and
  \<^verbatim>\<open>NaN\<close> equal to nothing.
\<close>

fun strict_eq :: "jsval \<Rightarrow> jsval \<Rightarrow> bool" where
  "strict_eq NaN b = False"
| "strict_eq a NaN = False"
| "strict_eq (Arr i xs) (Arr j ys) = (i = j)"
| "strict_eq a b = (a = b)"

fun isArray :: "jsval \<Rightarrow> bool" where
  "isArray (Arr i xs) = True"
| "isArray v = False"

text \<open>
  \<^verbatim>\<open>src/lib/is-array-of-strings.js\<close>:
  \<^verbatim>\<open>Array.isArray(o) && o.length > 0 && o.reduce(reducer, true)\<close> with
  \<^verbatim>\<open>reducer(memo, item) = memo && typeof item === 'string'\<close>.
\<close>

definition reducer :: "bool \<Rightarrow> jsval \<Rightarrow> bool" where
  "reducer memo item = (memo \<and> typeof item = ''string'')"

fun isArrayOfStrings :: "jsval \<Rightarrow> bool" where
  "isArrayOfStrings (Arr i xs) = (length xs > 0 \<and> foldl reducer True xs)"
| "isArrayOfStrings v = False"

text \<open>
  \<^verbatim>\<open>Array.isArray(eventNames) ? eventNames : [ eventNames ]\<close>
\<close>

fun toEventNamesList :: "jsval \<Rightarrow> jsval list" where
  "toEventNamesList (Arr i xs) = xs"
| "toEventNamesList v = [v]"

text \<open>
  \<^verbatim>\<open>this._eventListeners[eventName]\<close> indexes the hash by a property key. A string is its
  own key. \<^verbatim>\<open>on\<close>, \<^verbatim>\<open>once\<close> and \<^verbatim>\<open>emit\<close> only let strings through; \<^verbatim>\<open>off\<close> checks nothing,
  and a name that is not a string is converted by the host. That conversion depends on
  the value (a \<^verbatim>\<open>toString\<close> of the caller's), so it is the parameter \<open>K\<close> of the model:
  every theorem holds for every \<open>K\<close>.
\<close>

fun property_key :: "(jsval \<Rightarrow> string) \<Rightarrow> jsval \<Rightarrow> string" where
  "property_key K (Str s) = s"
| "property_key K v = K v"

section \<open>The registry\<close>

text \<open>
  A registration is the object \<^verbatim>\<open>{ callback, listener, context }\<close> that
  \<^verbatim>\<open>_addEventListener\<close> pushes. Its callback is either the listener itself (\<open>Direct\<close>) or
  the closure \<^verbatim>\<open>oneOffEventListener\<close> that \<^verbatim>\<open>once\<close> creates (\<open>OneOff\<close>), which captures
  the event name, the listener and the context of that call.
\<close>

datatype callback =
    Direct jsval
  | OneOff string jsval jsval

record registration =
  reg_callback :: callback
  reg_listener :: jsval
  reg_context :: jsval

text \<open>
  A pending promise reaction of \<^verbatim>\<open>_emitEvent\<close>: the closure
  \<^verbatim>\<open>function() { listener.callback.apply(listener.context, eventArgs); }\<close>
  with the registration and the arguments it captured.
\<close>

record task =
  task_listener :: registration
  task_args :: "jsval list"

text \<open>
  The state the operations act on.

  \<^item> \<open>eventListeners\<close> and \<open>copied\<close> are the object \<^verbatim>\<open>this._eventListeners\<close>. The code
    creates it lazily; an absent object is represented like \<^verbatim>\<open>{}\<close>, which no operation
    tells apart. \<open>eventListeners\<close> holds the arrays of registrations the object stores, by
    name. The object is a plain \<^verbatim>\<open>{}\<close>, so a name can also read as a value that is not
    an array: one inherited from the prototype chain, or a copy of it that
    \<^verbatim>\<open>_addEventListener\<close> stored under the name (\<open>copied\<close>); \<open>reads\<close> below says which.
    Reading and writing the name \<^verbatim>\<open>__proto__\<close> goes to the object's prototype: the entry
    of \<open>eventListeners\<close> under that name is the array installed as prototype, if one was.
  \<^item> \<open>microtasks\<close> is the queue of pending promise reactions, first in, first out.
  \<^item> \<open>calls\<close> records every listener invocation so far as (listener, \<^verbatim>\<open>this\<close>,
    arguments).
\<close>

type_synonym invocation = "jsval \<times> jsval \<times> jsval list"

record state =
  eventListeners :: "string \<rightharpoonup> registration list"
  microtasks :: "task list"
  calls :: "invocation list"
  copied :: "string set"

definition fresh :: state where
  "fresh = \<lparr>eventListeners = Map.empty, microtasks = [], calls = [], copied = {}\<rparr>"

text \<open>The registrations under a name; an entry that is not an array of them reads as none.\<close>

definition registrations :: "state \<Rightarrow> string \<Rightarrow> registration list" where
  "registrations st eventName = (case eventListeners st eventName of None \<Rightarrow> [] | Some rs \<Rightarrow> rs)"

text \<open>
  The property names an object inherits from \<^verbatim>\<open>Object.prototype\<close>, besides the accessor
  \<^verbatim>\<open>__proto__\<close>, and those an array adds through \<^verbatim>\<open>Array.prototype\<close> (ECMAScript 2023).
  Their values are functions: truthy, and not arrays.
\<close>

definition object_prototype_names :: "string list" where
  "object_prototype_names =
     [''constructor'', ''hasOwnProperty'', ''isPrototypeOf'', ''propertyIsEnumerable'',
      ''toLocaleString'', ''toString'', ''valueOf'', ''__defineGetter__'', ''__defineSetter__'',
      ''__lookupGetter__'', ''__lookupSetter__'']"

definition array_prototype_names :: "string list" where
  "array_prototype_names =
     [''at'', ''concat'', ''constructor'', ''copyWithin'', ''entries'', ''every'', ''fill'',
      ''filter'', ''find'', ''findIndex'', ''findLast'', ''findLastIndex'', ''flat'', ''flatMap'',
      ''forEach'', ''includes'', ''indexOf'', ''join'', ''keys'', ''lastIndexOf'', ''map'', ''pop'',
      ''push'', ''reduce'', ''reduceRight'', ''reverse'', ''shift'', ''slice'', ''some'', ''sort'',
      ''splice'', ''toLocaleString'', ''toReversed'', ''toSorted'', ''toSpliced'', ''toString'',
      ''unshift'', ''values'', ''with'']"

text \<open>The decimal numeral of a number: the property name of an array index.\<close>

fun decimal :: "nat \<Rightarrow> nat \<Rightarrow> string" where
  "decimal 0 n = []"
| "decimal (Suc fuel) n =
     (if n < 10 then [char_of (48 + n)]
      else decimal fuel (n div 10) @ [char_of (48 + n mod 10)])"

definition index_name :: "nat \<Rightarrow> string" where
  "index_name n = decimal (Suc n) n"

text \<open>
  Whether a name that is neither an own property nor \<^verbatim>\<open>__proto__\<close> is found, with a
  truthy value, on the prototype chain. The chain is \<^verbatim>\<open>Object.prototype\<close> (\<open>None\<close>), or an
  installed array, \<^verbatim>\<open>Array.prototype\<close> and \<^verbatim>\<open>Object.prototype\<close>. The array has its
  \<^verbatim>\<open>length\<close>, which is truthy unless it is \<^verbatim>\<open>0\<close>, and its indices, whose values are
  registration objects.
\<close>

fun inherited :: "registration list option \<Rightarrow> string \<Rightarrow> bool" where
  "inherited None eventName = (eventName \<in> set object_prototype_names)"
| "inherited (Some proto) eventName =
     (if eventName = ''length'' then proto \<noteq> []
      else eventName \<in> set (map index_name [0..<length proto])
         \<or> eventName \<in> set array_prototype_names
         \<or> eventName \<in> set object_prototype_names)"

text \<open>
  What \<^verbatim>\<open>this._eventListeners[eventName]\<close> evaluates to, as far as the code can tell:
  an array of registrations, a truthy value that is not an array, or a falsy value
  (\<^verbatim>\<open>undefined\<close>, or the length \<^verbatim>\<open>0\<close> of an empty array installed as prototype). An
  array is stored under the name. Otherwise \<^verbatim>\<open>__proto__\<close> reads the prototype, which
  is then \<^verbatim>\<open>Object.prototype\<close>; another name reads an own copy, or the prototype chain.
\<close>

datatype entry =
    Listeners "registration list"
  | NotArray
  | Missing

definition reads :: "state \<Rightarrow> string \<Rightarrow> entry" where
  "reads st eventName =
     (case eventListeners st eventName of
        Some rs \<Rightarrow> Listeners rs
      | None \<Rightarrow>
          if eventName = ''__proto__'' \<or> eventName \<in> copied st
             \<or> inherited (eventListeners st ''__proto__'') eventName
          then NotArray else Missing)"

text \<open>
  Errors are the three \<^verbatim>\<open>throw new Error(...)\<close> of the file, with the value the message
  ends in. A call either returns \<^verbatim>\<open>this\<close> (\<open>Returned\<close>, with the state it leaves), throws
  one of these errors (\<open>Thrown\<close>, with the state at the throw), or is stopped by a
  \<^verbatim>\<open>TypeError\<close> of the runtime, when it calls \<^verbatim>\<open>push\<close> or \<^verbatim>\<open>forEach\<close> on a value that has
  no such method (\<open>Crashed\<close>, with the state at that point).
\<close>

datatype error =
    EventNamesError jsval
  | ListenerError string
  | EventNameError string

datatype result =
    Returned state
  | Thrown error state
  | Crashed state

fun state_of :: "result \<Rightarrow> state" where
  "state_of (Returned st) = st"
| "state_of (Thrown e st) = st"
| "state_of (Crashed st) = st"

text \<open>
  \<^verbatim>\<open>names.forEach(function(name) { body })\<close> where the body may be stopped by a
  \<^verbatim>\<open>TypeError\<close>: the error ends the loop and the call.
\<close>

fun forEach :: "('a \<Rightarrow> state \<Rightarrow> result) \<Rightarrow> 'a list \<Rightarrow> state \<Rightarrow> result" where
  "forEach body [] st = Returned st"
| "forEach body (x # xs) st =
     (case body x st of
        Returned st' \<Rightarrow> forEach body xs st'
      | Thrown e st' \<Rightarrow> Thrown e st'
      | Crashed st' \<Rightarrow> Crashed st')"

section \<open>The helpers of \<^verbatim>\<open>src/lib\<close>\<close>

text \<open>
  \<^verbatim>\<open>find(arr, testFn)\<close>: \<open>None\<close> stands for \<^verbatim>\<open>undefined\<close> as result (nothing found), and
  as argument for every value that is not an array.
\<close>

fun find_js :: "'a list option \<Rightarrow> ('a \<Rightarrow> bool) \<Rightarrow> 'a option" where
  "find_js None testFn = None"
| "find_js (Some []) testFn = None"
| "find_js (Some (x # xs)) testFn = (if testFn x then Some x else find_js (Some xs) testFn)"

text \<open>
  \<^verbatim>\<open>reject(arr, testFn)\<close>: \<^verbatim>\<open>(arr || []).filter(item => !testFn(item))\<close>, and \<^verbatim>\<open>[]\<close> when
  \<^verbatim>\<open>arr\<close> is not an array (\<open>None\<close>).
\<close>

definition reject :: "'a list option \<Rightarrow> ('a \<Rightarrow> bool) \<Rightarrow> 'a list" where
  "reject arr testFn =
     filter (\<lambda>item. \<not> testFn item) (case arr of None \<Rightarrow> [] | Some targetArray \<Rightarrow> targetArray)"

section \<open>The private methods\<close>

definition ensureListenersHashExists :: "state \<Rightarrow> state" where
  "ensureListenersHashExists st = st"

text \<open>
  \<^verbatim>\<open>this._eventListeners[eventName] = value\<close> for an array \<open>value\<close>: the array becomes the
  own entry, in place of a copy if there was one (for \<^verbatim>\<open>__proto__\<close>, the prototype).
\<close>

definition store :: "string \<Rightarrow> registration list \<Rightarrow> state \<Rightarrow> state" where
  "store eventName value st =
     st\<lparr>eventListeners := (eventListeners st)(eventName \<mapsto> value),
        copied := copied st - {eventName}\<rparr>"

definition findEventListener :: "string \<Rightarrow> jsval \<Rightarrow> jsval \<Rightarrow> state \<Rightarrow> registration option" where
  "findEventListener eventName listener context st =
     find_js (eventListeners st eventName)
       (\<lambda>eventListener. strict_eq (reg_listener eventListener) listener
                      \<and> strict_eq (reg_context eventListener) context)"

text \<open>
  The fourth argument is \<open>None\<close> when the caller passes three (\<^verbatim>\<open>on\<close>), and the wrapper
  when \<^verbatim>\<open>once\<close> passes it: \<^verbatim>\<open>(typeof callback === 'function') ? callback : listener\<close>.
  When the name reads as a truthy value that is not an array,
  \<^verbatim>\<open>this._eventListeners[eventName] = this._eventListeners[eventName] || []\<close> stores that
  value as own entry (through the setter of \<^verbatim>\<open>__proto__\<close> it changes nothing), \<^verbatim>\<open>find\<close>
  returns \<^verbatim>\<open>undefined\<close>, and \<^verbatim>\<open>push\<close> is not a function of it.
\<close>

definition addEventListener ::
  "string \<Rightarrow> jsval \<Rightarrow> jsval \<Rightarrow> callback option \<Rightarrow> state \<Rightarrow> result" where
  "addEventListener eventName listener context callback st =
     (let st1 = ensureListenersHashExists st
      in case reads st1 eventName of
           NotArray \<Rightarrow>
             Crashed (st1\<lparr>copied := (if eventName = ''__proto__'' then copied st1
                                       else insert eventName (copied st1))\<rparr>)
         | _ \<Rightarrow>
            (let st2 = store eventName (registrations st1 eventName) st1
             in case findEventListener eventName listener context st2 of
                  Some existingListener \<Rightarrow> Returned st2
                | None \<Rightarrow>
                    Returned (store eventName
                       (registrations st2 eventName @
                        [\<lparr>reg_callback = (case callback of Some cb \<Rightarrow> cb | None \<Rightarrow> Direct listener),
                          reg_listener = listener,
                          reg_context = context\<rparr>]) st2)))"

definition removeEventListener :: "string \<Rightarrow> jsval \<Rightarrow> jsval \<Rightarrow> state \<Rightarrow> state" where
  "removeEventListener eventName listener context st =
     (let st1 = ensureListenersHashExists st
      in if falsy listener then store eventName [] st1
         else store eventName
                (reject (eventListeners st1 eventName)
                  (\<lambda>eventListener. strict_eq (reg_listener eventListener) listener \<and>
                     (if typeof context = ''undefined'' then True
                      else strict_eq (reg_context eventListener) context))) st1)"

text \<open>
  \<^verbatim>\<open>if (!this._eventListeners[eventName]) return;\<close> lets every truthy value through, and
  \<^verbatim>\<open>forEach\<close> is a function of arrays only.
\<close>

definition emitEvent :: "string \<Rightarrow> jsval list \<Rightarrow> state \<Rightarrow> result" where
  "emitEvent eventName eventArgs st =
     (let st1 = ensureListenersHashExists st
      in case reads st1 eventName of
           Missing \<Rightarrow> Returned st1
         | NotArray \<Rightarrow> Crashed st1
         | Listeners ls \<Rightarrow>
             Returned (st1\<lparr>microtasks := microtasks st1 @
                    map (\<lambda>listener. \<lparr>task_listener = listener, task_args = eventArgs\<rparr>) ls\<rparr>))"

section \<open>The public methods\<close>

definition on :: "(jsval \<Rightarrow> string) \<Rightarrow> jsval \<Rightarrow> jsval \<Rightarrow> jsval \<Rightarrow> state \<Rightarrow> result" where
  "on K eventNames listener context st =
     (if typeof eventNames \<noteq> ''string'' \<and> \<not> isArrayOfStrings eventNames
      then Thrown (EventNamesError eventNames) st
      else if typeof listener \<noteq> ''function''
      then Thrown (ListenerError (typeof listener)) st
      else
        let eventNamesList = map (property_key K) (toEventNamesList eventNames);
            st1 = foldl (\<lambda>s eventName. removeEventListener eventName listener context s)
                    st eventNamesList
        in forEach (\<lambda>eventName s. addEventListener eventName listener context None s)
             eventNamesList st1)"

definition once :: "(jsval \<Rightarrow> string) \<Rightarrow> jsval \<Rightarrow> jsval \<Rightarrow> jsval \<Rightarrow> state \<Rightarrow> result" where
  "once K eventName listener context st =
     (if typeof eventName \<noteq> ''string''
      then Thrown (EventNameError (typeof eventName)) st
      else if typeof listener \<noteq> ''function''
      then Thrown (ListenerError (typeof listener)) st
      else
        addEventListener (property_key K eventName) listener context
          (Some (OneOff (property_key K eventName) listener context)) st)"

definition off :: "(jsval \<Rightarrow> string) \<Rightarrow> jsval \<Rightarrow> jsval \<Rightarrow> jsval \<Rightarrow> state \<Rightarrow> result" where
  "off K eventNames listener context st =
     (if falsy eventNames then Returned (st\<lparr>eventListeners := Map.empty, copied := {}\<rparr>)
      else
        Returned (foldl (\<lambda>s eventName. removeEventListener eventName listener context s)
                    st (map (property_key K) (toEventNamesList eventNames))))"

definition emit :: "(jsval \<Rightarrow> string) \<Rightarrow> jsval \<Rightarrow> jsval list \<Rightarrow> state \<Rightarrow> result" where
  "emit K eventNames eventArgs st =
     (if typeof eventNames \<noteq> ''string'' \<and> \<not> isArrayOfStrings eventNames
      then Thrown (EventNamesError eventNames) st
      else
        forEach (\<lambda>eventName s. emitEvent eventName eventArgs s)
          (map (property_key K) (toEventNamesList eventNames)) st)"

section \<open>Running the scheduled invocations\<close>

text \<open>
  \<^verbatim>\<open>listener.apply(thisArg, args)\<close>: the invocation of a function is recorded; a value
  that is not a function is not invoked. Whether the call then returns or throws is
  \<open>throws listener\<close>.
\<close>

definition invoke :: "jsval \<Rightarrow> jsval \<Rightarrow> jsval list \<Rightarrow> state \<Rightarrow> state" where
  "invoke listener thisArg args st =
     (if typeof listener = ''function''
      then st\<lparr>calls := calls st @ [(listener, thisArg, args)]\<rparr>
      else st)"

text \<open>
  The wrapper of \<^verbatim>\<open>once\<close>, called with \<open>thisArg\<close> and \<open>args\<close>; \<open>eventName\<close>, \<open>listener\<close>
  and \<open>context\<close> are the variables it closes over. The removal is the statement after
  \<^verbatim>\<open>listener.apply\<close>: it is reached only when the listener returns.
\<close>

definition oneOffEventListener ::
  "string \<Rightarrow> jsval \<Rightarrow> jsval \<Rightarrow> jsval \<Rightarrow> jsval list \<Rightarrow> state \<Rightarrow> state" where
  "oneOffEventListener eventName listener context thisArg args st =
     (case findEventListener eventName listener context st of
        Some thisEventListener \<Rightarrow>
          (let st1 = invoke listener thisArg args st
           in if throws listener then st1
              else removeEventListener eventName listener context st1)
      | None \<Rightarrow> st)"

fun apply_callback :: "callback \<Rightarrow> jsval \<Rightarrow> jsval list \<Rightarrow> state \<Rightarrow> state" where
  "apply_callback (Direct listener) thisArg args st = invoke listener thisArg args st"
| "apply_callback (OneOff eventName listener context) thisArg args st =
     oneOffEventListener eventName listener context thisArg args st"

text \<open>
  \<^verbatim>\<open>listener.callback.apply(listener.context, eventArgs)\<close>, inside a promise reaction: an
  exception it throws rejects the promise and reaches nothing else.
\<close>

definition run_task :: "task \<Rightarrow> state \<Rightarrow> state" where
  "run_task t st =
     apply_callback (reg_callback (task_listener t)) (reg_context (task_listener t)) (task_args t) st"

text \<open>The scheduler runs the oldest pending reaction; \<open>tick\<close> runs all that are pending.\<close>

definition run_next :: "state \<Rightarrow> state" where
  "run_next st =
     (case microtasks st of
        [] \<Rightarrow> st
      | t # ts \<Rightarrow> run_task t (st\<lparr>microtasks := ts\<rparr>))"

definition tick :: "state \<Rightarrow> state" where
  "tick st = foldl (\<lambda>s t. run_task t s) (st\<lparr>microtasks := []\<rparr>) (microtasks st)"

section \<open>Sequences of calls\<close>

text \<open>
  What a program can do to an emitter: call one of the four public methods with any
  arguments, or let the scheduler run the oldest pending reaction. A call that throws
  leaves the state it threw in.
\<close>

datatype action =
    On jsval jsval jsval
  | Once jsval jsval jsval
  | Off jsval jsval jsval
  | Emit jsval "jsval list"
  | RunNext

fun perform :: "(jsval \<Rightarrow> string) \<Rightarrow> state \<Rightarrow> action \<Rightarrow> state" where
  "perform K st (On eventNames listener context) = state_of (on K eventNames listener context st)"
| "perform K st (Once eventName listener context) = state_of (once K eventName listener context st)"
| "perform K st (Off eventNames listener context) = state_of (off K eventNames listener context st)"
| "perform K st (Emit eventNames eventArgs) = state_of (emit K eventNames eventArgs st)"
| "perform K st RunNext = run_next st"

fun is_emit_or_run :: "action \<Rightarrow> bool" where
  "is_emit_or_run (Emit eventNames eventArgs) = True"
| "is_emit_or_run RunNext = True"
| "is_emit_or_run a = False"

section \<open>The vocabulary of the properties\<close>

text \<open>
  A registration has the identity pair \<open>(listener, context)\<close> when both components are
  \<^verbatim>\<open>===\<close> to it: the test of \<^verbatim>\<open>_findEventListener\<close>.
\<close>

definition has_pair :: "jsval \<Rightarrow> jsval \<Rightarrow> registration \<Rightarrow> bool" where
  "has_pair listener context r =
     (strict_eq (reg_listener r) listener \<and> strict_eq (reg_context r) context)"

text \<open>
  The test of \<^verbatim>\<open>_removeEventListener\<close> for a truthy listener: the listener is \<^verbatim>\<open>===\<close>, and
  the context is \<^verbatim>\<open>===\<close> unless the context argument is \<^verbatim>\<open>undefined\<close>.
\<close>

definition removed_by :: "jsval \<Rightarrow> jsval \<Rightarrow> registration \<Rightarrow> bool" where
  "removed_by listener context r =
     (strict_eq (reg_listener r) listener \<and>
      (context = Undefined \<or> strict_eq (reg_context r) context))"

text \<open>No two registrations of a sequence have the same identity pair.\<close>

fun distinct_pairs :: "registration list \<Rightarrow> bool" where
  "distinct_pairs [] = True"
| "distinct_pairs (r # rs) =
     (\<not> list_ex (has_pair (reg_listener r) (reg_context r)) rs \<and> distinct_pairs rs)"

text \<open>The registration \<^verbatim>\<open>on\<close> pushes, and the one \<^verbatim>\<open>once\<close> pushes.\<close>

definition direct_reg :: "jsval \<Rightarrow> jsval \<Rightarrow> registration" where
  "direct_reg f c = \<lparr>reg_callback = Direct f, reg_listener = f, reg_context = c\<rparr>"

definition once_reg :: "string \<Rightarrow> jsval \<Rightarrow> jsval \<Rightarrow> registration" where
  "once_reg e f c = \<lparr>reg_callback = OneOff e f c, reg_listener = f, reg_context = c\<rparr>"

text \<open>
  A callback threatens the registration of \<open>(f, c)\<close> under \<open>e\<close> when it is a one-off
  wrapper for \<open>e\<close> whose removal, \<^verbatim>\<open>_removeEventListener(e, f', c')\<close>, takes that
  registration too. A state is unthreatened when no registration and no pending reaction
  holds such a callback.
\<close>

fun threatens :: "string \<Rightarrow> jsval \<Rightarrow> jsval \<Rightarrow> callback \<Rightarrow> bool" where
  "threatens e f c (Direct l) = False"
| "threatens e f c (OneOff e' f' c') =
     (e' = e \<and> strict_eq f f' \<and> (c' = Undefined \<or> strict_eq c c'))"

definition unthreatened :: "string \<Rightarrow> jsval \<Rightarrow> jsval \<Rightarrow> state \<Rightarrow> bool" where
  "unthreatened e f c st =
     ((\<forall>n. \<forall>r\<in>set (registrations st n). \<not> threatens e f c (reg_callback r)) \<and>
      (\<forall>t\<in>set (microtasks st). \<not> threatens e f c (reg_callback (task_listener t))))"

text \<open>
  A registration mentions \<open>f\<close> when \<open>f\<close> is its listener or the function its callback
  invokes. A state is free of \<open>f\<close> when no registration and no pending reaction mentions
  it. \<open>invoked f st\<close> counts the invocations of \<open>f\<close> so far.
\<close>

fun callback_listener :: "callback \<Rightarrow> jsval" where
  "callback_listener (Direct l) = l"
| "callback_listener (OneOff e l c) = l"

definition mentions :: "jsval \<Rightarrow> registration \<Rightarrow> bool" where
  "mentions f r = (reg_listener r = f \<or> callback_listener (reg_callback r) = f)"

definition listener_free :: "jsval \<Rightarrow> state \<Rightarrow> bool" where
  "listener_free f st =
     ((\<forall>n. \<forall>r\<in>set (registrations st n). \<not> mentions f r) \<and>
      (\<forall>t\<in>set (microtasks st). \<not> mentions f (task_listener t)))"


text \<open>
  The invocations a sequence of actions asks of a listener \<open>f\<close> bound with context \<open>c\<close>:
  one per emission, with \<open>c\<close> as \<^verbatim>\<open>this\<close> and the arguments of that emission, in order.
\<close>

fun invocations_of :: "jsval \<Rightarrow> jsval \<Rightarrow> action list \<Rightarrow> invocation list" where
  "invocations_of f c [] = []"
| "invocations_of f c (Emit n args # as) = (f, c, args) # invocations_of f c as"
| "invocations_of f c (a # as) = invocations_of f c as"

text \<open>The state after \<^verbatim>\<open>once(e, f, c)\<close> followed by \<^verbatim>\<open>on(e, f, c)\<close>.\<close>

definition once_then_on :: "(jsval \<Rightarrow> string) \<Rightarrow> string \<Rightarrow> jsval \<Rightarrow> jsval \<Rightarrow> state \<Rightarrow> state" where
  "once_then_on K e f c st = state_of (on K (Str e) f c (state_of (once K (Str e) f c st)))"

section \<open>Invariants of the proofs\<close>

text \<open>Every sequence of the registry is free of duplicate identity pairs.\<close>

definition registry_distinct :: "state \<Rightarrow> bool" where
  "registry_distinct st = (\<forall>n. distinct_pairs (registrations st n))"


text \<open>
  After \<^verbatim>\<open>on(e, f, c)\<close> in an unthreatened state: the state stays unthreatened and the
  registration of \<open>(f, c)\<close> stays the one the call pushed.
\<close>

definition persist_inv :: "string \<Rightarrow> jsval \<Rightarrow> jsval \<Rightarrow> state \<Rightarrow> bool" where
  "persist_inv e f c st =
     (unthreatened e f c st \<and>
      filter (has_pair f c) (registrations st e) = [direct_reg f c])"

section \<open>Facts about values and the private methods\<close>

lemma strict_eq_refl: "a \<noteq> NaN \<Longrightarrow> strict_eq a a"
  by (cases a) simp_all

lemma strict_eq_sym: "strict_eq a b = strict_eq b a"
  by (cases a; cases b) auto


lemma strict_eq_function': "typeof f = ''function'' \<Longrightarrow> strict_eq f g = (g = f)"
  by (cases f; cases g) auto

lemma function_not_NaN: "typeof f = ''function'' \<Longrightarrow> f \<noteq> NaN"
  by (cases f) simp_all

lemma function_truthy: "typeof f = ''function'' \<Longrightarrow> \<not> falsy f"
  by (cases f) simp_all

lemma typeof_undefined: "(typeof c = ''undefined'') = (c = Undefined)"
  by (cases c) simp_all

lemma find_js_None: "(find_js (Some xs) P = None) = (\<not> list_ex P xs)"
  by (induction xs) auto

lemma find_js_case:
  "(case find_js (Some xs) P of None \<Rightarrow> a | Some y \<Rightarrow> b) = (if list_ex P xs then b else a)"
  by (induction xs) auto

lemma reads_Listeners: "(reads st n = Listeners rs) = (eventListeners st n = Some rs)"
  by (auto simp: reads_def split: option.splits if_splits)

lemma reads_own: "eventListeners st n = Some rs \<Longrightarrow> reads st n = Listeners rs"
  by (simp add: reads_Listeners)

lemma reads_not_array_regs: "reads st n = NotArray \<Longrightarrow> registrations st n = []"
  by (auto simp: reads_def registrations_def split: option.splits if_splits)

lemma reads_missing_regs: "reads st n = Missing \<Longrightarrow> registrations st n = []"
  by (auto simp: reads_def registrations_def split: option.splits if_splits)

lemma reads_fresh:
  "reads fresh n = (if n = ''__proto__'' \<or> n \<in> set object_prototype_names then NotArray else Missing)"
  by (simp add: reads_def fresh_def)

lemma registrations_store:
  "registrations (store e v st) n = (if n = e then v else registrations st n)"
  by (simp add: store_def registrations_def)

lemma microtasks_store: "microtasks (store e v st) = microtasks st"
  by (simp add: store_def)

lemma calls_store: "calls (store e v st) = calls st"
  by (simp add: store_def)

lemma eventListeners_store: "eventListeners (store e v st) = (eventListeners st)(e \<mapsto> v)"
  by (simp add: store_def)

lemma registrations_remove:
  "registrations (removeEventListener e l c st) n =
     (if n = e
      then (if falsy l then []
            else filter (\<lambda>r. \<not> removed_by l c r)
                   (registrations st e))
      else registrations st n)"
  by (auto simp: registrations_def removeEventListener_def ensureListenersHashExists_def reject_def
        store_def typeof_undefined removed_by_def split: option.splits intro: filter_cong)

lemma microtasks_remove: "microtasks (removeEventListener e l c st) = microtasks st"
  by (simp add: removeEventListener_def ensureListenersHashExists_def Let_def microtasks_store)

lemma calls_remove: "calls (removeEventListener e l c st) = calls st"
  by (simp add: removeEventListener_def ensureListenersHashExists_def Let_def calls_store)

lemma own_remove: "eventListeners (removeEventListener e l c st) e \<noteq> None"
  by (simp add: removeEventListener_def ensureListenersHashExists_def Let_def store_def)

lemma own_remove_keeps: "eventListeners st n \<noteq> None \<Longrightarrow> eventListeners (removeEventListener e l c st) n \<noteq> None"
  by (simp add: removeEventListener_def ensureListenersHashExists_def Let_def store_def)

subsection \<open>\<^verbatim>\<open>_addEventListener\<close>\<close>

lemma add_crashes:
  "reads st e = NotArray \<Longrightarrow>
   addEventListener e l c cb st =
     Crashed (st\<lparr>copied := (if e = ''__proto__'' then copied st else insert e (copied st))\<rparr>)"
  by (simp add: addEventListener_def ensureListenersHashExists_def)

lemma add_returns:
  "reads st e \<noteq> NotArray \<Longrightarrow>
   addEventListener e l c cb st =
     Returned (if list_ex (has_pair l c) (registrations st e)
               then store e (registrations st e) st
               else store e (registrations st e @
                      [\<lparr>reg_callback = (case cb of Some w \<Rightarrow> w | None \<Rightarrow> Direct l),
                        reg_listener = l, reg_context = c\<rparr>]) (store e (registrations st e) st))"
  by (cases "reads st e")
     (simp_all add: addEventListener_def ensureListenersHashExists_def Let_def findEventListener_def
        eventListeners_store find_js_case has_pair_def[abs_def] registrations_store)

lemma registrations_add:
  "registrations (state_of (addEventListener e l c cb st)) n =
     (if n = e \<and> reads st e \<noteq> NotArray
      then (if list_ex (has_pair l c) (registrations st e) then registrations st e
            else registrations st e @
                 [\<lparr>reg_callback = (case cb of Some w \<Rightarrow> w | None \<Rightarrow> Direct l),
                   reg_listener = l, reg_context = c\<rparr>])
      else registrations st n)"
proof (cases "reads st e = NotArray")
  case True
  then show ?thesis
    by (simp add: add_crashes registrations_def)
next
  case False
  then show ?thesis
    by (simp add: add_returns registrations_store)
qed

lemma microtasks_add: "microtasks (state_of (addEventListener e l c cb st)) = microtasks st"
  by (cases "reads st e = NotArray") (simp_all add: add_crashes add_returns microtasks_store)

lemma calls_add: "calls (state_of (addEventListener e l c cb st)) = calls st"
  by (cases "reads st e = NotArray") (simp_all add: add_crashes add_returns calls_store)

lemma own_add_keeps:
  "eventListeners st n \<noteq> None \<Longrightarrow> eventListeners (state_of (addEventListener e l c cb st)) n \<noteq> None"
  by (cases "reads st e = NotArray") (simp_all add: add_crashes add_returns store_def)

lemma add_own_returns:
  "eventListeners st e \<noteq> None \<Longrightarrow> \<exists>st'. addEventListener e l c cb st = Returned st'"
  by (cases "reads st e = NotArray") (auto simp: add_returns reads_def split: option.splits)

subsection \<open>\<^verbatim>\<open>_emitEvent\<close>\<close>

lemma emitEvent_state:
  "state_of (emitEvent e args st) =
     st\<lparr>microtasks := microtasks st @ map (\<lambda>r. \<lparr>task_listener = r, task_args = args\<rparr>) (registrations st e)\<rparr>"
proof (cases "reads st e")
  case (Listeners rs)
  then have "eventListeners st e = Some rs" by (simp add: reads_Listeners)
  with Listeners show ?thesis
    by (simp add: emitEvent_def ensureListenersHashExists_def registrations_def)
next
  case NotArray
  then show ?thesis
    by (simp add: emitEvent_def ensureListenersHashExists_def reads_not_array_regs)
next
  case Missing
  then show ?thesis
    by (simp add: emitEvent_def ensureListenersHashExists_def reads_missing_regs)
qed

lemma reads_microtasks_update: "reads (st\<lparr>microtasks := m\<rparr>) n = reads st n"
  by (simp add: reads_def split: option.splits)

lemma registrations_microtasks_update: "registrations (st\<lparr>microtasks := ts\<rparr>) n = registrations st n"
  by (simp add: registrations_def)

lemma eventListeners_emitEvent: "eventListeners (state_of (emitEvent e args st)) = eventListeners st"
  by (simp add: emitEvent_state)

lemma registrations_emitEvent: "registrations (state_of (emitEvent e args st)) n = registrations st n"
  by (simp add: emitEvent_state registrations_microtasks_update)

lemma reads_emitEvent: "reads (state_of (emitEvent e args st)) n = reads st n"
  by (simp add: emitEvent_state reads_microtasks_update)

lemma calls_emitEvent: "calls (state_of (emitEvent e args st)) = calls st"
  by (simp add: emitEvent_state)

lemma microtasks_emitEvent:
  "microtasks (state_of (emitEvent e args st)) =
     microtasks st @ map (\<lambda>r. \<lparr>task_listener = r, task_args = args\<rparr>) (registrations st e)"
  by (simp add: emitEvent_state)

lemma emitEvent_returns:
  "reads st e \<noteq> NotArray \<Longrightarrow> \<exists>st'. emitEvent e args st = Returned st'"
  by (cases "reads st e") (simp_all add: emitEvent_def ensureListenersHashExists_def)

lemma emitEvent_crashes:
  "reads st e = NotArray \<Longrightarrow> emitEvent e args st = Crashed st"
  by (simp add: emitEvent_def ensureListenersHashExists_def)

section \<open>Facts about the public methods\<close>

lemma forEach_state_inv:
  assumes "\<And>x s. P s \<Longrightarrow> P (state_of (body x s))" and "P st"
  shows "P (state_of (forEach body xs st))"
  using assms(2)
proof (induction xs arbitrary: st)
  case Nil
  then show ?case by simp
next
  case (Cons x xs)
  from assms(1)[OF Cons.prems, of x] Cons.IH show ?case
    by (cases "body x st") auto
qed

lemma forEach_Returned_step:
  "body x st = Returned st' \<Longrightarrow> forEach body (x # xs) st = forEach body xs st'"
  by simp

subsection \<open>\<^verbatim>\<open>emit\<close>\<close>

lemma emit_loop_state:
  "state_of (forEach (\<lambda>n s. emitEvent n args s) ns st) =
     st\<lparr>microtasks := microtasks st @
           concat (map (\<lambda>n. map (\<lambda>r. \<lparr>task_listener = r, task_args = args\<rparr>) (registrations st n))
                     (takeWhile (\<lambda>n. reads st n \<noteq> NotArray) ns))\<rparr>"
proof (induction ns arbitrary: st)
  case Nil
  then show ?case by simp
next
  case (Cons a ns)
  show ?case
  proof (cases "reads st a = NotArray")
    case True
    then show ?thesis by (simp add: emitEvent_crashes)
  next
    case False
    then obtain st' where r: "emitEvent a args st = Returned st'"
      using emitEvent_returns by blast
    then have st': "st' = st\<lparr>microtasks := microtasks st @ map (\<lambda>r. \<lparr>task_listener = r, task_args = args\<rparr>) (registrations st a)\<rparr>"
      using emitEvent_state[of a args st] by simp
    show ?thesis
      using False
      by (simp add: r Cons.IH) (simp add: st' reads_microtasks_update registrations_microtasks_update)
  qed
qed

lemma emit_loop_returns:
  "\<forall>n\<in>set ns. reads st n \<noteq> NotArray \<Longrightarrow>
   \<exists>st'. forEach (\<lambda>n s. emitEvent n args s) ns st = Returned st'"
proof (induction ns arbitrary: st)
  case Nil
  then show ?case by simp
next
  case (Cons a ns)
  then obtain st1 where r: "emitEvent a args st = Returned st1"
    using emitEvent_returns[of st a args] by auto
  then have "st1 = state_of (emitEvent a args st)" by simp
  then have "reads st1 n = reads st n" for n
    by (simp add: reads_emitEvent)
  with Cons.prems have "\<forall>n\<in>set ns. reads st1 n \<noteq> NotArray" by simp
  from Cons.IH[OF this] show ?case by (simp add: r)
qed


lemma emit_returns:
  assumes "typeof ns = ''string'' \<or> isArrayOfStrings ns"
    and "\<forall>n\<in>set (map (property_key K) (toEventNamesList ns)). reads st n \<noteq> NotArray"
  shows "emit K ns args st = Returned (state_of (emit K ns args st))"
proof -
  from emit_loop_returns[OF assms(2), of args] obtain st' where
    "forEach (\<lambda>n s. emitEvent n args s) (map (property_key K) (toEventNamesList ns)) st = Returned st'"
    by blast
  with assms(1) show ?thesis by (auto simp: emit_def)
qed


lemma emit_state:
  "state_of (emit K ns args st) =
     (if typeof ns = ''string'' \<or> isArrayOfStrings ns
      then st\<lparr>microtasks := microtasks st @
             concat (map (\<lambda>n. map (\<lambda>r. \<lparr>task_listener = r, task_args = args\<rparr>) (registrations st n))
                       (takeWhile (\<lambda>n. reads st n \<noteq> NotArray) (map (property_key K) (toEventNamesList ns))))\<rparr>
      else st)"
  by (simp add: emit_def emit_loop_state del: map_map)

lemma registrations_emit: "registrations (state_of (emit K ns args st)) n = registrations st n"
  by (simp add: emit_state registrations_microtasks_update)

lemma reads_emit: "reads (state_of (emit K ns args st)) n = reads st n"
  by (simp add: emit_state reads_microtasks_update)

lemma calls_emit: "calls (state_of (emit K ns args st)) = calls st"
  by (simp add: emit_state)


lemma microtasks_emit:
  "microtasks (state_of (emit K ns args st)) =
     (if typeof ns = ''string'' \<or> isArrayOfStrings ns
      then microtasks st @
           concat (map (\<lambda>n. map (\<lambda>r. \<lparr>task_listener = r, task_args = args\<rparr>) (registrations st n))
                     (takeWhile (\<lambda>n. reads st n \<noteq> NotArray) (map (property_key K) (toEventNamesList ns))))
      else microtasks st)"
  by (simp add: emit_state del: map_map)

lemma emit_tasks_from_registrations:
  "t \<in> set (microtasks (state_of (emit K ns args st))) \<Longrightarrow>
   t \<in> set (microtasks st) \<or> (\<exists>n. task_listener t \<in> set (registrations st n))"
  by (auto simp: microtasks_emit split: if_splits dest!: set_takeWhileD)

subsection \<open>The loop of removals\<close>

lemma microtasks_remove_fold:
  "microtasks (foldl (\<lambda>s n. removeEventListener n l c s) st ns) = microtasks st"
  by (induction ns arbitrary: st) (simp_all add: microtasks_remove)

lemma calls_remove_fold:
  "calls (foldl (\<lambda>s n. removeEventListener n l c s) st ns) = calls st"
  by (induction ns arbitrary: st) (simp_all add: calls_remove)

lemma registrations_remove_fold:
  "registrations (foldl (\<lambda>s n. removeEventListener n l c s) st ns) n =
     (if n \<in> set ns
      then (if falsy l then []
            else filter (\<lambda>r. \<not> removed_by l c r)
                   (registrations st n))
      else registrations st n)"
  by (induction ns arbitrary: st) (auto simp: registrations_remove)

lemma own_remove_fold_keeps:
  "eventListeners st n \<noteq> None \<Longrightarrow> eventListeners (foldl (\<lambda>s n. removeEventListener n l c s) st ns) n \<noteq> None"
proof (induction ns arbitrary: st)
  case Nil
  then show ?case by simp
next
  case (Cons a ns)
  from Cons.IH[OF own_remove_keeps[OF Cons.prems, of a l c]] show ?case by simp
qed

lemma own_remove_fold:
  "n \<in> set ns \<Longrightarrow> eventListeners (foldl (\<lambda>s n. removeEventListener n l c s) st ns) n \<noteq> None"
proof (induction ns arbitrary: st)
  case Nil
  then show ?case by simp
next
  case (Cons a ns)
  show ?case
  proof (cases "n = a")
    case True
    have "eventListeners (removeEventListener a l c st) a \<noteq> None"
      by (rule own_remove)
    from own_remove_fold_keeps[OF this, of l c ns] True show ?thesis by simp
  next
    case False
    with Cons show ?thesis by simp
  qed
qed

subsection \<open>The loop of additions\<close>

lemma add_loop_returns:
  "\<forall>n\<in>set ns. eventListeners st n \<noteq> None \<Longrightarrow>
   \<exists>st'. forEach (\<lambda>n s. addEventListener n l c cb s) ns st = Returned st'"
proof (induction ns arbitrary: st)
  case Nil
  then show ?case by simp
next
  case (Cons a ns)
  then obtain st1 where r: "addEventListener a l c cb st = Returned st1"
    using add_own_returns[of st a l c cb] by auto
  then have "st1 = state_of (addEventListener a l c cb st)" by simp
  with Cons.prems have "\<forall>n\<in>set ns. eventListeners st1 n \<noteq> None"
    by (simp add: own_add_keeps)
  from Cons.IH[OF this] show ?case by (simp add: r)
qed

lemma microtasks_add_loop:
  "microtasks (state_of (forEach (\<lambda>n s. addEventListener n l c cb s) ns st)) = microtasks st"
  by (rule forEach_state_inv[where P="\<lambda>s. microtasks s = microtasks st"]) (simp_all add: microtasks_add)

lemma calls_add_loop:
  "calls (state_of (forEach (\<lambda>n s. addEventListener n l c cb s) ns st)) = calls st"
  by (rule forEach_state_inv[where P="\<lambda>s. calls s = calls st"]) (simp_all add: calls_add)

lemma registrations_add_loop_other:
  "n \<notin> set ns \<Longrightarrow>
   registrations (state_of (forEach (\<lambda>n s. addEventListener n l c cb s) ns st)) n = registrations st n"
proof (induction ns arbitrary: st)
  case Nil
  then show ?case by simp
next
  case (Cons a ns)
  then show ?case
    by (cases "addEventListener a l c cb st")
       (use registrations_add[of a l c cb st n] in \<open>auto split: if_splits\<close>)
qed

lemma has_pair_self:
  "l \<noteq> NaN \<Longrightarrow> c \<noteq> NaN \<Longrightarrow> has_pair l c \<lparr>reg_callback = cb, reg_listener = l, reg_context = c\<rparr>"
  by (simp add: has_pair_def strict_eq_refl)

lemma removed_by_self:
  "l \<noteq> NaN \<Longrightarrow> c \<noteq> NaN \<Longrightarrow> removed_by l c \<lparr>reg_callback = cb, reg_listener = l, reg_context = c\<rparr>"
  by (simp add: removed_by_def strict_eq_refl)

lemma registrations_add_loop:
  assumes "\<forall>n\<in>set ns. eventListeners st n \<noteq> None" and "l \<noteq> NaN" and "c \<noteq> NaN"
  shows "registrations (state_of (forEach (\<lambda>n s. addEventListener n l c cb s) ns st)) n =
     (if n \<in> set ns
      then (if list_ex (has_pair l c) (registrations st n) then registrations st n
            else registrations st n @
                 [\<lparr>reg_callback = (case cb of Some w \<Rightarrow> w | None \<Rightarrow> Direct l),
                   reg_listener = l, reg_context = c\<rparr>])
      else registrations st n)"
  using assms(1)
proof (induction ns arbitrary: st)
  case Nil
  then show ?case by simp
next
  case (Cons a ns)
  then obtain st1 where r: "addEventListener a l c cb st = Returned st1"
    using add_own_returns[of st a l c cb] by auto
  then have st1: "st1 = state_of (addEventListener a l c cb st)" by simp
  with Cons.prems have own: "\<forall>n\<in>set ns. eventListeners st1 n \<noteq> None"
    by (simp add: own_add_keeps)
  have ra: "reads st a \<noteq> NotArray"
    using Cons.prems by (auto simp: reads_def split: option.splits)
  show ?case
    using ra assms(2,3)
    by (simp add: r Cons.IH[OF own]) (simp add: st1 registrations_add has_pair_self)
qed

lemma no_pair_after_removal:
  "\<not> list_ex (has_pair l c)
       (filter (\<lambda>r. \<not> removed_by l c r) rs)"
  by (auto simp: list_ex_iff has_pair_def removed_by_def)

subsection \<open>\<^verbatim>\<open>on\<close>\<close>

lemma on_returns:
  "(typeof eventNames = ''string'' \<or> isArrayOfStrings eventNames) \<Longrightarrow> typeof l = ''function'' \<Longrightarrow>
   on K eventNames l c st = Returned (state_of (on K eventNames l c st))"
proof -
  assume v: "typeof eventNames = ''string'' \<or> isArrayOfStrings eventNames" "typeof l = ''function''"
  let ?ns = "map (property_key K) (toEventNamesList eventNames)"
  let ?st1 = "foldl (\<lambda>s n. removeEventListener n l c s) st ?ns"
  have "\<forall>n\<in>set ?ns. eventListeners ?st1 n \<noteq> None"
    using own_remove_fold by blast
  from add_loop_returns[OF this, of l c None] obtain st' where
    "forEach (\<lambda>n s. addEventListener n l c None s) ?ns ?st1 = Returned st'" by blast
  with v show ?thesis
    by (auto simp: on_def Let_def)
qed

lemma on_not_crashed: "on K eventNames l c st \<noteq> Crashed st'"
proof (cases "(typeof eventNames = ''string'' \<or> isArrayOfStrings eventNames) \<and> typeof l = ''function''")
  case True
  then show ?thesis using on_returns[of eventNames l K c st] by auto
next
  case False
  then show ?thesis by (auto simp: on_def)
qed

lemma microtasks_on: "microtasks (state_of (on K ns l c st)) = microtasks st"
  by (simp add: on_def Let_def microtasks_add_loop microtasks_remove_fold)

lemma calls_on: "calls (state_of (on K ns l c st)) = calls st"
  by (simp add: on_def Let_def calls_add_loop calls_remove_fold)

lemma registrations_on_other:
  "n \<notin> set (map (property_key K) (toEventNamesList eventNames)) \<Longrightarrow>
   registrations (state_of (on K eventNames l c st)) n = registrations st n"
  by (simp add: on_def Let_def registrations_add_loop_other registrations_remove_fold del: set_map)

lemma registrations_on_single:
  "registrations (state_of (on K (Str s) l c st)) n =
     (if typeof l = ''function'' \<and> n = s
      then filter (\<lambda>r. \<not> removed_by l c r) (registrations st n) @
           [\<lparr>reg_callback = Direct l, reg_listener = l, reg_context = c\<rparr>]
      else registrations st n)"
proof -
  let ?st1 = "removeEventListener s l c st"
  have "eventListeners ?st1 s \<noteq> None" by (rule own_remove)
  then have ra: "reads ?st1 s \<noteq> NotArray"
    by (auto simp: reads_def split: option.splits)
  have "registrations (state_of (addEventListener s l c None ?st1)) n =
          (if n = s then filter (\<lambda>r. \<not> removed_by l c r) (registrations st n) @
               [\<lparr>reg_callback = Direct l, reg_listener = l, reg_context = c\<rparr>]
           else registrations st n)" if "typeof l = ''function''"
    using ra that
    by (simp add: registrations_add registrations_remove function_truthy no_pair_after_removal)
  then show ?thesis
    by (cases "addEventListener s l c None ?st1") (auto simp: on_def Let_def)
qed

lemma registrations_on:
  assumes "c \<noteq> NaN"
  shows "registrations (state_of (on K eventNames l c st)) n =
     (if (typeof eventNames = ''string'' \<or> isArrayOfStrings eventNames) \<and> typeof l = ''function''
         \<and> n \<in> set (map (property_key K) (toEventNamesList eventNames))
      then filter (\<lambda>r. \<not> removed_by l c r)
             (registrations st n) @
           [\<lparr>reg_callback = Direct l, reg_listener = l, reg_context = c\<rparr>]
      else registrations st n)"
proof (cases "(typeof eventNames = ''string'' \<or> isArrayOfStrings eventNames) \<and> typeof l = ''function''")
  case False
  then show ?thesis by (auto simp: on_def)
next
  case True
  let ?ns = "map (property_key K) (toEventNamesList eventNames)"
  let ?st1 = "foldl (\<lambda>s n. removeEventListener n l c s) st ?ns"
  have own: "\<forall>n\<in>set ?ns. eventListeners ?st1 n \<noteq> None"
    using own_remove_fold by blast
  have l: "l \<noteq> NaN" "\<not> falsy l"
    using True by (simp_all add: function_not_NaN function_truthy)
  have "state_of (on K eventNames l c st) =
          state_of (forEach (\<lambda>n s. addEventListener n l c None s) ?ns ?st1)"
    using True by (auto simp: on_def Let_def)
  then show ?thesis
    using True l
    by (simp add: registrations_add_loop[OF own l(1) assms] registrations_remove_fold
          no_pair_after_removal del: set_map)
qed

subsection \<open>\<^verbatim>\<open>once\<close>\<close>

lemma registrations_once:
  "registrations (state_of (once K eventName l c st)) n =
     (if typeof eventName = ''string'' \<and> typeof l = ''function'' \<and> n = property_key K eventName
         \<and> reads st n \<noteq> NotArray
         \<and> \<not> list_ex (has_pair l c) (registrations st n)
      then registrations st n @
           [\<lparr>reg_callback = OneOff (property_key K eventName) l c, reg_listener = l, reg_context = c\<rparr>]
      else registrations st n)"
  by (simp add: once_def registrations_add)

lemma microtasks_once: "microtasks (state_of (once K n l c st)) = microtasks st"
  by (simp add: once_def microtasks_add)

lemma calls_once: "calls (state_of (once K n l c st)) = calls st"
  by (simp add: once_def calls_add)

lemma once_returns:
  "typeof l = ''function'' \<Longrightarrow> reads st e \<noteq> NotArray \<Longrightarrow>
   once K (Str e) l c st = Returned (state_of (once K (Str e) l c st))"
  by (simp add: once_def add_returns)

subsection \<open>\<^verbatim>\<open>off\<close>\<close>

lemma registrations_off:
  "registrations (state_of (off K eventNames l c st)) n =
     (if falsy eventNames then []
      else if n \<in> set (map (property_key K) (toEventNamesList eventNames))
      then (if falsy l then []
            else filter (\<lambda>r. \<not> removed_by l c r)
                   (registrations st n))
      else registrations st n)"
  by (simp add: off_def registrations_remove_fold del: set_map) (simp add: registrations_def)

lemma microtasks_off: "microtasks (state_of (off K ns l c st)) = microtasks st"
  by (simp add: off_def microtasks_remove_fold)

lemma calls_off: "calls (state_of (off K ns l c st)) = calls st"
  by (simp add: off_def calls_remove_fold)

section \<open>The registry stays free of duplicate pairs\<close>

lemma distinct_pairs_filter: "distinct_pairs rs \<Longrightarrow> distinct_pairs (filter P rs)"
  by (induction rs) (auto simp: list_ex_iff)

lemma distinct_pairs_snoc:
  "distinct_pairs rs \<Longrightarrow> \<not> list_ex (has_pair l c) rs \<Longrightarrow>
   distinct_pairs (rs @ [\<lparr>reg_callback = cb, reg_listener = l, reg_context = c\<rparr>])"
  by (induction rs) (auto simp: list_ex_iff has_pair_def strict_eq_sym)

lemma inv_remove: "registry_distinct st \<Longrightarrow> registry_distinct (removeEventListener e l c st)"
  by (simp add: registry_distinct_def registrations_remove distinct_pairs_filter)

lemma inv_add: "registry_distinct st \<Longrightarrow> registry_distinct (state_of (addEventListener e l c cb st))"
  by (simp add: registry_distinct_def registrations_add distinct_pairs_snoc)

lemma inv_remove_fold: "registry_distinct st \<Longrightarrow> registry_distinct (foldl (\<lambda>s n. removeEventListener n l c s) st ns)"
  by (induction ns arbitrary: st) (simp_all add: inv_remove)

lemma inv_add_loop:
  "registry_distinct st \<Longrightarrow> registry_distinct (state_of (forEach (\<lambda>n s. addEventListener n l c cb s) ns st))"
  by (rule forEach_state_inv[where P=registry_distinct]) (simp_all add: inv_add)

lemma inv_on: "registry_distinct st \<Longrightarrow> registry_distinct (state_of (on K ns l c st))"
  by (simp add: on_def Let_def inv_remove_fold inv_add_loop)

lemma inv_once: "registry_distinct st \<Longrightarrow> registry_distinct (state_of (once K n l c st))"
  by (simp add: once_def inv_add)

lemma inv_off: "registry_distinct st \<Longrightarrow> registry_distinct (state_of (off K ns l c st))"
  by (simp add: off_def inv_remove_fold) (simp add: registry_distinct_def registrations_def)

lemma inv_emit: "registry_distinct st \<Longrightarrow> registry_distinct (state_of (emit K ns args st))"
  by (simp add: registry_distinct_def registrations_emit)

lemma registrations_invoke: "registrations (invoke l t a st) n = registrations st n"
  by (simp add: invoke_def registrations_def)

lemma calls_invoke:
  "calls (invoke l t a st) = (if typeof l = ''function'' then calls st @ [(l, t, a)] else calls st)"
  by (simp add: invoke_def)

lemma microtasks_invoke: "microtasks (invoke l t a st) = microtasks st"
  by (simp add: invoke_def)

lemma findEventListener_None:
  "(findEventListener e l c st = None) = (\<not> list_ex (has_pair l c) (registrations st e))"
  by (cases "eventListeners st e")
     (simp_all add: findEventListener_def registrations_def find_js_None has_pair_def[abs_def])

lemma oneOff_absent:
  "\<not> list_ex (has_pair l c) (registrations st e) \<Longrightarrow> oneOffEventListener e l c t args st = st"
  using findEventListener_None[of e l c st] by (simp add: oneOffEventListener_def)

lemma oneOff_present:
  "list_ex (has_pair l c) (registrations st e) \<Longrightarrow>
   oneOffEventListener e l c t args st =
     (if throws l then invoke l t args st else removeEventListener e l c (invoke l t args st))"
  using findEventListener_None[of e l c st]
  by (auto simp: oneOffEventListener_def Let_def split: option.splits)

lemma registrations_oneOff:
  "registrations (oneOffEventListener e l c t args st) n =
     (if n = e \<and> list_ex (has_pair l c) (registrations st e) \<and> \<not> throws l
      then (if falsy l then [] else filter (\<lambda>r. \<not> removed_by l c r) (registrations st e))
      else registrations st n)"
  by (cases "list_ex (has_pair l c) (registrations st e)")
     (simp_all add: oneOff_absent oneOff_present registrations_remove registrations_invoke)

lemma microtasks_oneOff: "microtasks (oneOffEventListener e l c t args st) = microtasks st"
  by (cases "list_ex (has_pair l c) (registrations st e)")
     (simp_all add: oneOff_absent oneOff_present microtasks_remove microtasks_invoke)


lemma run_task_Direct:
  "run_task \<lparr>task_listener = \<lparr>reg_callback = Direct f, reg_listener = l, reg_context = c\<rparr>, task_args = args\<rparr> st
     = invoke f c args st"
  by (simp add: run_task_def)

lemma run_task_OneOff:
  "run_task \<lparr>task_listener = \<lparr>reg_callback = OneOff e f c', reg_listener = l, reg_context = c\<rparr>, task_args = args\<rparr> st
     = oneOffEventListener e f c' c args st"
  by (simp add: run_task_def)


lemma inv_run_task: "registry_distinct st \<Longrightarrow> registry_distinct (run_task t st)"
  by (cases "reg_callback (task_listener t)")
     (simp_all add: run_task_def registry_distinct_def registrations_invoke registrations_oneOff
        distinct_pairs_filter)

lemma inv_run_next: "registry_distinct st \<Longrightarrow> registry_distinct (run_next st)"
  by (auto simp: run_next_def split: list.splits intro!: inv_run_task)
     (simp add: registry_distinct_def registrations_microtasks_update)

lemma inv_perform: "registry_distinct st \<Longrightarrow> registry_distinct (perform K st a)"
  by (cases a) (simp_all add: inv_on inv_once inv_off inv_emit inv_run_next)

lemma inv_fresh: "registry_distinct fresh"
  by (simp add: registry_distinct_def fresh_def registrations_def)

lemma inv_actions: "registry_distinct st \<Longrightarrow> registry_distinct (foldl (perform K) st as)"
  by (induction as arbitrary: st) (simp_all add: inv_perform)

lemma throws_function: "\<not> throws l \<Longrightarrow> typeof l = ''function''"
  by (cases l) simp_all

lemma throws_truthy: "\<not> throws l \<Longrightarrow> \<not> falsy l"
  by (cases l) simp_all

lemma tick_Nil: "microtasks st = [] \<Longrightarrow> tick st = st"
  by (simp add: tick_def)

lemma on_with_context_keeps_other_contexts:
  assumes "typeof f = ''function''" and "c \<noteq> Undefined"
  shows "registrations (state_of (on K (Str e) f c st)) e =
           filter (\<lambda>r. \<not> has_pair f c r) (registrations st e) @
           [\<lparr>reg_callback = Direct f, reg_listener = f, reg_context = c\<rparr>]"
  using assms by (simp add: registrations_on_single removed_by_def has_pair_def)

lemma on_without_context_removes_every_context:
  assumes "typeof f = ''function''"
  shows "registrations (state_of (on K (Str e) f Undefined st)) e =
           filter (\<lambda>r. \<not> strict_eq (reg_listener r) f) (registrations st e) @
           [\<lparr>reg_callback = Direct f, reg_listener = f, reg_context = Undefined\<rparr>]"
  using assms by (simp add: registrations_on_single removed_by_def)

lemma add_not_thrown: "addEventListener e l c cb st \<noteq> Thrown err st'"
  by (cases "reads st e = NotArray") (simp_all add: add_crashes add_returns)

lemma emitEvent_not_thrown: "emitEvent e args st \<noteq> Thrown err st'"
  by (simp add: emitEvent_def ensureListenersHashExists_def split: entry.splits)

lemma forEach_not_thrown:
  assumes "\<And>x s err s'. body x s \<noteq> Thrown err s'"
  shows "forEach body xs st \<noteq> Thrown err st'"
proof (induction xs arbitrary: st)
  case Nil
  then show ?case by simp
next
  case (Cons x xs)
  show ?case
  proof (cases "body x st")
    case (Returned s)
    then show ?thesis using Cons by simp
  next
    case (Thrown e s)
    then show ?thesis using assms by simp
  next
    case (Crashed s)
    then show ?thesis by simp
  qed
qed

lemma add_loop_not_thrown:
  "forEach (\<lambda>n s. addEventListener n l c cb s) ns st \<noteq> Thrown err st'"
  by (rule forEach_not_thrown) (rule add_not_thrown)

lemma emit_loop_not_thrown:
  "forEach (\<lambda>n s. emitEvent n args s) ns st \<noteq> Thrown err st'"
  by (rule forEach_not_thrown) (rule emitEvent_not_thrown)

section \<open>Emissions and the scheduler\<close>

lemma own_of_registrations: "registrations st e \<noteq> [] \<Longrightarrow> eventListeners st e \<noteq> None"
  by (auto simp: registrations_def split: option.splits)

lemma reads_of_own: "eventListeners st e \<noteq> None \<Longrightarrow> reads st e \<noteq> NotArray"
  by (auto simp: reads_def)

lemma emit_Str:
  "reads st e \<noteq> NotArray \<Longrightarrow>
   emit K (Str e) args st =
     Returned (st\<lparr>microtasks := microtasks st @
                 map (\<lambda>r. \<lparr>task_listener = r, task_args = args\<rparr>) (registrations st e)\<rparr>)"
  using emit_returns[of "Str e" K st args] by (simp add: emit_state)

lemma perform_Emit_Str:
  "reads st e \<noteq> NotArray \<Longrightarrow>
   perform K st (Emit (Str e) args) =
     st\<lparr>microtasks := microtasks st @ map (\<lambda>r. \<lparr>task_listener = r, task_args = args\<rparr>) (registrations st e)\<rparr>"
  by (simp add: emit_Str)

subsection \<open>A registration pushed by \<^verbatim>\<open>on\<close>\<close>

lemma fold_direct_tasks:
  "typeof f = ''function'' \<Longrightarrow>
   foldl (\<lambda>s t. run_task t s) st
      (map (\<lambda>args. \<lparr>task_listener = \<lparr>reg_callback = Direct f, reg_listener = f, reg_context = c\<rparr>,
                       task_args = args\<rparr>) argss)
   = st\<lparr>calls := calls st @ map (\<lambda>args. (f, c, args)) argss\<rparr>"
  by (induction argss arbitrary: st) (simp_all add: run_task_Direct invoke_def)

lemma direct_run:
  assumes "\<forall>a\<in>set as. a = RunNext \<or> (\<exists>args. a = Emit (Str e) args)"
    and "registrations st e = [direct_reg f c]"
    and "microtasks st = map (\<lambda>args. \<lparr>task_listener = direct_reg f c, task_args = args\<rparr>) qs"
    and "typeof f = ''function''"
  shows "\<exists>qs' cs'. foldl (perform K) st as =
            st\<lparr>microtasks := map (\<lambda>args. \<lparr>task_listener = direct_reg f c, task_args = args\<rparr>) qs', calls := cs'\<rparr>
          \<and> cs' @ map (\<lambda>args. (f, c, args)) qs' =
            calls st @ map (\<lambda>args. (f, c, args)) qs @ invocations_of f c as"
  using assms(1,2,3)
proof (induction as arbitrary: st qs)
  case Nil
  then show ?case
    by (intro exI[of _ qs] exI[of _ "calls st"]) simp
next
  case (Cons a as)
  let ?mk = "\<lambda>args. \<lparr>task_listener = direct_reg f c, task_args = args\<rparr>"
  from Cons.prems(1) consider (run) "a = RunNext" | (emit) args where "a = Emit (Str e) args"
    by auto
  then show ?case
  proof cases
    case run
    show ?thesis
    proof (cases qs)
      case Nil
      with run Cons.prems have st1: "perform K st a = st"
        by (simp add: run_next_def)
      from Cons.IH[of st qs] Cons.prems st1 run show ?thesis
        by simp
    next
      case (Cons q qs1)
      let ?st1 = "st\<lparr>microtasks := map ?mk qs1, calls := calls st @ [(f, c, q)]\<rparr>"
      from run Cons Cons.prems assms(4) have st1: "perform K st a = ?st1"
        by (simp add: run_next_def run_task_def direct_reg_def invoke_def)
      have r: "registrations ?st1 e = [direct_reg f c]"
        using Cons.prems(2) by (simp add: registrations_def)
      have m: "microtasks ?st1 = map ?mk qs1" by simp
      from Cons.prems(1) have rest: "\<forall>a\<in>set as. a = RunNext \<or> (\<exists>args. a = Emit (Str e) args)"
        by simp
      from Cons.IH[OF rest r m] obtain qs' cs' where
        h: "foldl (perform K) ?st1 as = ?st1\<lparr>microtasks := map ?mk qs', calls := cs'\<rparr>"
           "cs' @ map (\<lambda>args. (f, c, args)) qs' =
              calls ?st1 @ map (\<lambda>args. (f, c, args)) qs1 @ invocations_of f c as"
        by blast
      show ?thesis
        apply (intro exI[of _ qs'] exI[of _ cs'])
        using h st1 run Cons by simp
    qed
  next
    case emit
    let ?st1 = "st\<lparr>microtasks := map ?mk (qs @ [args])\<rparr>"
    have "reads st e \<noteq> NotArray"
      using Cons.prems(2) by (intro reads_of_own own_of_registrations) simp
    with emit Cons.prems have st1: "perform K st a = ?st1"
      using perform_Emit_Str[of st e K args] by simp
    have r: "registrations ?st1 e = [direct_reg f c]"
      using Cons.prems(2) by (simp add: registrations_def)
    have m: "microtasks ?st1 = map ?mk (qs @ [args])" by simp
    from Cons.prems(1) have rest: "\<forall>a\<in>set as. a = RunNext \<or> (\<exists>args. a = Emit (Str e) args)"
      by simp
    from Cons.IH[OF rest r m] obtain qs' cs' where
      h: "foldl (perform K) ?st1 as = ?st1\<lparr>microtasks := map ?mk qs', calls := cs'\<rparr>"
         "cs' @ map (\<lambda>args. (f, c, args)) qs' =
            calls ?st1 @ map (\<lambda>args. (f, c, args)) (qs @ [args]) @ invocations_of f c as"
      by blast
    show ?thesis
      apply (intro exI[of _ qs'] exI[of _ cs'])
      using h st1 emit by simp
  qed
qed

lemma tick_direct:
  "typeof f = ''function'' \<Longrightarrow>
   microtasks st = map (\<lambda>args. \<lparr>task_listener = direct_reg f c, task_args = args\<rparr>) qs \<Longrightarrow>
   tick st = st\<lparr>microtasks := [], calls := calls st @ map (\<lambda>args. (f, c, args)) qs\<rparr>"
  using fold_direct_tasks[of f "st\<lparr>microtasks := []\<rparr>" c qs]
  by (simp add: tick_def direct_reg_def)

lemma direct_count:
  assumes "\<forall>a\<in>set as. a = RunNext \<or> (\<exists>args. a = Emit (Str e) args)"
    and "registrations st e = [direct_reg f c]"
    and "microtasks st = []"
    and "typeof f = ''function''"
  shows "calls (tick (foldl (perform K) st as)) = calls st @ invocations_of f c as"
    and "registrations (tick (foldl (perform K) st as)) e = [direct_reg f c]"
proof -
  let ?mk = "\<lambda>args. \<lparr>task_listener = direct_reg f c, task_args = args\<rparr>"
  have q: "microtasks st = map ?mk []" using assms(3) by simp
  from direct_run[OF assms(1,2) q assms(4), of K] obtain qs' cs' where
    h: "foldl (perform K) st as = st\<lparr>microtasks := map ?mk qs', calls := cs'\<rparr>"
       "cs' @ map (\<lambda>args. (f, c, args)) qs' = calls st @ invocations_of f c as"
    by auto
  have t: "tick (foldl (perform K) st as) =
          st\<lparr>microtasks := [], calls := cs' @ map (\<lambda>args. (f, c, args)) qs'\<rparr>"
    using tick_direct[OF assms(4), of "st\<lparr>microtasks := map ?mk qs', calls := cs'\<rparr>" c qs'] h(1)
    by simp
  show "calls (tick (foldl (perform K) st as)) = calls st @ invocations_of f c as"
    using t h(2) by simp
  show "registrations (tick (foldl (perform K) st as)) e = [direct_reg f c]"
    using t assms(2) by (simp add: registrations_def)
qed

subsection \<open>The registration of \<^verbatim>\<open>on\<close> persists\<close>

lemma filter_commute: "filter P (filter Q xs) = filter Q (filter P xs)"
  by (induction xs) simp_all

lemma has_pair_direct: "f \<noteq> NaN \<Longrightarrow> c \<noteq> NaN \<Longrightarrow> has_pair f c (direct_reg f c)"
  by (simp add: has_pair_def direct_reg_def strict_eq_refl)

lemma persist_inv_emit:
  assumes "persist_inv e f c st"
  shows "persist_inv e f c (state_of (emit K ns args st))"
proof -
  have "\<forall>t\<in>set (microtasks (state_of (emit K ns args st))). \<not> threatens e f c (reg_callback (task_listener t))"
  proof
    fix t assume "t \<in> set (microtasks (state_of (emit K ns args st)))"
    from emit_tasks_from_registrations[OF this] assms
    show "\<not> threatens e f c (reg_callback (task_listener t))"
      by (auto simp: persist_inv_def unthreatened_def)
  qed
  then show ?thesis
    using assms by (simp add: persist_inv_def unthreatened_def registrations_emit)
qed

lemma persist_inv_run_task:
  assumes inv: "persist_inv e f c st"
    and safe: "\<not> threatens e f c (reg_callback (task_listener t))"
  shows "persist_inv e f c (run_task t st)"
proof (cases "reg_callback (task_listener t)")
  case (Direct g)
  then show ?thesis
    using inv by (simp add: run_task_def persist_inv_def unthreatened_def registrations_invoke microtasks_invoke)
next
  case (OneOff e' f' c')
  let ?st' = "oneOffEventListener e' f' c' (reg_context (task_listener t)) (task_args t) st"
  have step: "run_task t st = ?st'"
    using OneOff by (simp add: run_task_def)
  have sub: "\<And>n. set (registrations ?st' n) \<subseteq> set (registrations st n)"
    by (auto simp: registrations_oneOff throws_truthy)
  have keep: "filter (has_pair f c) (registrations ?st' e) = [direct_reg f c]"
  proof (cases "e' = e \<and> list_ex (has_pair f' c') (registrations st e) \<and> \<not> throws f'")
    case False
    then show ?thesis
      using inv by (auto simp: registrations_oneOff persist_inv_def)
  next
    case True
    from safe OneOff True have nt: "\<not> removed_by f' c' (direct_reg f c)"
      by (simp add: removed_by_def direct_reg_def)
    have "filter (has_pair f c) (registrations ?st' e) =
            filter (has_pair f c) (filter (\<lambda>r. \<not> removed_by f' c' r) (registrations st e))"
      using True by (simp add: registrations_oneOff throws_truthy)
    also have "\<dots> = filter (\<lambda>r. \<not> removed_by f' c' r) (filter (has_pair f c) (registrations st e))"
      by (rule filter_commute)
    also have "\<dots> = filter (\<lambda>r. \<not> removed_by f' c' r) [direct_reg f c]"
      using inv by (simp only: persist_inv_def)
    also have "\<dots> = [direct_reg f c]"
      using nt by simp
    finally show ?thesis .
  qed
  have "unthreatened e f c ?st'"
    using inv sub by (auto simp: persist_inv_def unthreatened_def microtasks_oneOff)
  with keep step show ?thesis
    by (simp add: persist_inv_def)
qed

lemma persist_inv_run_next:
  assumes "persist_inv e f c st"
  shows "persist_inv e f c (run_next st)"
proof (cases "microtasks st")
  case Nil
  then show ?thesis using assms by (simp add: run_next_def)
next
  case (Cons t ts)
  have inv0: "persist_inv e f c (st\<lparr>microtasks := ts\<rparr>)"
    using assms Cons by (simp add: persist_inv_def unthreatened_def registrations_microtasks_update)
  have safe: "\<not> threatens e f c (reg_callback (task_listener t))"
    using assms Cons by (simp add: persist_inv_def unthreatened_def)
  show ?thesis
    using persist_inv_run_task[OF inv0 safe] Cons by (simp add: run_next_def)
qed

lemma persist_inv_actions:
  "persist_inv e f c st \<Longrightarrow> list_all is_emit_or_run as \<Longrightarrow> persist_inv e f c (foldl (perform K) st as)"
proof (induction as arbitrary: st)
  case Nil
  then show ?case by simp
next
  case (Cons a as)
  then have "persist_inv e f c (perform K st a)"
    by (cases a) (simp_all add: persist_inv_emit persist_inv_run_next)
  with Cons show ?case by simp
qed

lemma pair_after_on:
  assumes "typeof f = ''function''" and "c \<noteq> NaN"
  shows "filter (has_pair f c) (registrations (state_of (on K (Str e) f c st)) e) = [direct_reg f c]"
proof -
  have "filter (has_pair f c) (filter (\<lambda>r. \<not> removed_by f c r) rs) = []" for rs
    by (induction rs) (auto simp: has_pair_def removed_by_def)
  moreover have "has_pair f c (direct_reg f c)"
    using has_pair_direct[OF function_not_NaN[OF assms(1)] assms(2)] .
  ultimately show ?thesis
    using assms by (simp add: registrations_on_single direct_reg_def)
qed

subsection \<open>The registration of \<^verbatim>\<open>once\<close> fires at most once\<close>



lemma mentions_once_reg: "mentions f (once_reg e f c)"
  by (simp add: mentions_def once_reg_def)









subsection \<open>\<^verbatim>\<open>once\<close> followed by \<^verbatim>\<open>on\<close>\<close>

lemma once_returns_iff:
  "typeof f = ''function'' \<Longrightarrow>
   (\<exists>st1. once K (Str e) f c st = Returned st1) = (reads st e \<noteq> NotArray)"
  by (cases "reads st e = NotArray") (simp_all add: once_def add_crashes add_returns)

lemma removed_by_once_reg: "typeof f = ''function'' \<Longrightarrow> c \<noteq> NaN \<Longrightarrow> removed_by f c (once_reg e f c)"
  by (simp add: removed_by_def once_reg_def strict_eq_refl function_not_NaN)

lemma registrations_once_then_on:
  assumes "typeof f = ''function''" and "c \<noteq> NaN" and "\<forall>r\<in>set (registrations st e). removed_by f c r"
  shows "registrations (once_then_on K e f c st) e = [direct_reg f c]"
proof -
  have "filter (\<lambda>r. \<not> removed_by f c r) (registrations st e) = []"
    using assms(3) by (simp add: filter_empty_conv)
  then show ?thesis
    using assms(1,2) removed_by_once_reg[OF assms(1,2), of e]
    by (simp add: once_then_on_def registrations_on_single registrations_once direct_reg_def once_reg_def)
qed

lemma registrations_once_cases:
  "r \<in> set (registrations (state_of (once K (Str e) f c st)) n) \<Longrightarrow>
   r \<in> set (registrations st n) \<or> (r = once_reg e f c \<and> n = e)"
  by (auto simp: registrations_once once_reg_def split: if_splits)

lemma unthreatened_once_then_on:
  assumes f: "typeof f = ''function''" and c: "c \<noteq> NaN" and free: "listener_free f st"
  shows "unthreatened e f c (once_then_on K e f c st)"
proof -
  have safe: "\<not> threatens e f c (reg_callback r)" if "\<not> mentions f r" for r
  proof (cases "reg_callback r")
    case (Direct g)
    then show ?thesis by simp
  next
    case (OneOff e' f' c')
    with that have "f' \<noteq> f" by (auto simp: mentions_def)
    then have "\<not> strict_eq f f'"
      using f by (cases f; cases f') auto
    with OneOff show ?thesis by simp
  qed
  have regs: "\<not> threatens e f c (reg_callback r)"
    if r: "r \<in> set (registrations (once_then_on K e f c st) n)" for n r
  proof (cases "r = direct_reg f c")
    case True
    then show ?thesis by (simp add: direct_reg_def)
  next
    case False
    have "r \<in> set (registrations (state_of (once K (Str e) f c st)) n) \<and> (n = e \<longrightarrow> \<not> removed_by f c r)"
      using r False f
      by (auto simp: once_then_on_def registrations_on_single direct_reg_def split: if_splits)
    then have "r \<in> set (registrations st n)"
      using registrations_once_cases[of r K e f c st n] removed_by_once_reg[OF f c, of e] by blast
    with free have "\<not> mentions f r"
      by (auto simp: listener_free_def)
    then show ?thesis by (rule safe)
  qed
  have tasks: "\<not> threatens e f c (reg_callback (task_listener t))"
    if "t \<in> set (microtasks (once_then_on K e f c st))" for t
    using that free safe by (simp add: once_then_on_def microtasks_on microtasks_once listener_free_def)
  show ?thesis
    unfolding unthreatened_def using regs tasks by blast
qed

subsection \<open>Two emissions after \<^verbatim>\<open>once\<close>\<close>



subsection \<open>Arrays of names\<close>






section \<open>The claims\<close>

subsection \<open>C1: \<^verbatim>\<open>on\<close> after \<^verbatim>\<open>once\<close>\<close>

text \<open>
  C1. For every event name \<open>e\<close>, listener \<open>f\<close> (a function) and context \<open>c\<close> other than
  \<^verbatim>\<open>NaN\<close>, in any state: \<^verbatim>\<open>once(e, f, c)\<close> returns exactly when \<open>e\<close> does not read as a
  value that is not an array (else a \<^verbatim>\<open>TypeError\<close> stops it); \<^verbatim>\<open>on(e, f, c)\<close> after it
  returns, and then exactly one registration under \<open>e\<close> has the identity pair \<open>(f, c)\<close>,
  with \<open>f\<close> itself as callback and not the one-off wrapper. That registration persists:
  when no registration and no pending reaction holds a one-off wrapper whose removal
  would take it (as is the case when \<open>f\<close> was neither registered nor pending before the
  two calls), then after any emissions and scheduler steps it is still the one
  registration of the pair, and an emission of \<open>e\<close> returns having scheduled one reaction
  per registration under \<open>e\<close>, so exactly one for it. Running that reaction invokes \<open>f\<close>
  with \<open>c\<close> as \<^verbatim>\<open>this\<close> and the arguments of the emission. When moreover every
  registration under \<open>e\<close> was one that \<^verbatim>\<open>on\<close> replaces and nothing was pending, then
  after emissions of \<open>e\<close> and scheduler steps in any order, once the pending reactions
  have run, \<open>f\<close> was invoked exactly once per emission, in order, and the registration is
  still there.
\<close>

theorem C1_on_overrides_once:
  assumes "typeof f = ''function''" and "c \<noteq> NaN"
  shows "((\<exists>st1. once K (Str e) f c st = Returned st1) = (reads st e \<noteq> NotArray))
       \<and> (\<exists>st2. on K (Str e) f c (state_of (once K (Str e) f c st)) = Returned st2)
       \<and> filter (has_pair f c) (registrations (once_then_on K e f c st) e) = [direct_reg f c]
       \<and> (listener_free f st \<longrightarrow> unthreatened e f c (once_then_on K e f c st))
       \<and> (unthreatened e f c (once_then_on K e f c st) \<and> list_all is_emit_or_run as \<longrightarrow>
            (let later = foldl (perform K) (once_then_on K e f c st) as
             in filter (has_pair f c) (registrations later e) = [direct_reg f c] \<and>
                emit K (Str e) args later =
                  Returned (later\<lparr>microtasks := microtasks later @
                     map (\<lambda>r. \<lparr>task_listener = r, task_args = args\<rparr>) (registrations later e)\<rparr>)))
       \<and> run_task \<lparr>task_listener = direct_reg f c, task_args = args\<rparr> s = s\<lparr>calls := calls s @ [(f, c, args)]\<rparr>
       \<and> ((\<forall>r\<in>set (registrations st e). removed_by f c r) \<and> microtasks st = [] \<and>
          (\<forall>a\<in>set as. a = RunNext \<or> (\<exists>args. a = Emit (Str e) args)) \<longrightarrow>
            calls (tick (foldl (perform K) (once_then_on K e f c st) as)) = calls st @ invocations_of f c as \<and>
            registrations (tick (foldl (perform K) (once_then_on K e f c st) as)) e = [direct_reg f c])"
proof (intro conjI impI)
  show "(\<exists>st1. once K (Str e) f c st = Returned st1) = (reads st e \<noteq> NotArray)"
    using assms(1) by (rule once_returns_iff)
next
  show "\<exists>st2. on K (Str e) f c (state_of (once K (Str e) f c st)) = Returned st2"
  proof -
    have "on K (Str e) f c (state_of (once K (Str e) f c st)) =
            Returned (state_of (on K (Str e) f c (state_of (once K (Str e) f c st))))"
      using assms(1) by (intro on_returns) simp_all
    then show ?thesis ..
  qed
next
  show "filter (has_pair f c) (registrations (once_then_on K e f c st) e) = [direct_reg f c]"
    unfolding once_then_on_def using assms by (rule pair_after_on)
next
  assume "listener_free f st"
  with assms show "unthreatened e f c (once_then_on K e f c st)"
    by (rule unthreatened_once_then_on)
next
  assume h: "unthreatened e f c (once_then_on K e f c st) \<and> list_all is_emit_or_run as"
  let ?later = "foldl (perform K) (once_then_on K e f c st) as"
  have "persist_inv e f c (once_then_on K e f c st)"
    using h pair_after_on[OF assms, of K e] by (simp add: persist_inv_def once_then_on_def)
  with h have inv: "persist_inv e f c ?later"
    by (intro persist_inv_actions) simp_all
  then have keep: "filter (has_pair f c) (registrations ?later e) = [direct_reg f c]"
    by (simp add: persist_inv_def)
  then have "registrations ?later e \<noteq> []"
    by auto
  then have "reads ?later e \<noteq> NotArray"
    by (intro reads_of_own own_of_registrations)
  then have "emit K (Str e) args ?later =
               Returned (?later\<lparr>microtasks := microtasks ?later @
                  map (\<lambda>r. \<lparr>task_listener = r, task_args = args\<rparr>) (registrations ?later e)\<rparr>)"
    by (rule emit_Str)
  with keep show "let later = ?later
        in filter (has_pair f c) (registrations later e) = [direct_reg f c] \<and>
           emit K (Str e) args later =
             Returned (later\<lparr>microtasks := microtasks later @
                map (\<lambda>r. \<lparr>task_listener = r, task_args = args\<rparr>) (registrations later e)\<rparr>)"
    by (simp add: Let_def)
next
  show "run_task \<lparr>task_listener = direct_reg f c, task_args = args\<rparr> s = s\<lparr>calls := calls s @ [(f, c, args)]\<rparr>"
    using assms(1) by (simp add: run_task_def direct_reg_def invoke_def)
next
  assume h: "(\<forall>r\<in>set (registrations st e). removed_by f c r) \<and> microtasks st = [] \<and>
          (\<forall>a\<in>set as. a = RunNext \<or> (\<exists>args. a = Emit (Str e) args))"
  let ?st2 = "once_then_on K e f c st"
  have regs: "registrations ?st2 e = [direct_reg f c]"
    using assms h by (intro registrations_once_then_on) simp_all
  have q: "microtasks ?st2 = []"
    using h by (simp add: once_then_on_def microtasks_on microtasks_once)
  have cs: "calls ?st2 = calls st"
    by (simp add: once_then_on_def calls_on calls_once)
  from h have as: "\<forall>a\<in>set as. a = RunNext \<or> (\<exists>args. a = Emit (Str e) args)" by simp
  from direct_count(1)[OF as regs q assms(1), of K] cs
  show "calls (tick (foldl (perform K) ?st2 as)) = calls st @ invocations_of f c as"
    by simp
next
  assume h: "(\<forall>r\<in>set (registrations st e). removed_by f c r) \<and> microtasks st = [] \<and>
          (\<forall>a\<in>set as. a = RunNext \<or> (\<exists>args. a = Emit (Str e) args))"
  let ?st2 = "once_then_on K e f c st"
  have regs: "registrations ?st2 e = [direct_reg f c]"
    using assms h by (intro registrations_once_then_on) simp_all
  have q: "microtasks ?st2 = []"
    using h by (simp add: once_then_on_def microtasks_on microtasks_once)
  from h have as: "\<forall>a\<in>set as. a = RunNext \<or> (\<exists>args. a = Emit (Str e) args)" by simp
  from direct_count(2)[OF as regs q assms(1), of K]
  show "registrations (tick (foldl (perform K) ?st2 as)) e = [direct_reg f c]" .
qed

theorem C1_witness:
  "typeof (Fn 0) = ''function'' \<and> Undefined \<noteq> NaN \<and> listener_free (Fn 0) fresh \<and> microtasks fresh = [] \<and>
   list_all is_emit_or_run [Emit (Str ''event1'') [Num 1], RunNext, Emit (Str ''event1'') [Num 2], Emit (Str ''event1'') [Num 3]] \<and>
   unthreatened ''event1'' (Fn 0) Undefined (once_then_on (\<lambda>v. []) ''event1'' (Fn 0) Undefined fresh) \<and>
   filter (has_pair (Fn 0) Undefined)
     (registrations (foldl (perform (\<lambda>v. [])) (once_then_on (\<lambda>v. []) ''event1'' (Fn 0) Undefined fresh)
        [Emit (Str ''event1'') [Num 1], RunNext, Emit (Str ''event1'') [Num 2], Emit (Str ''event1'') [Num 3]]) ''event1'')
     = [\<lparr>reg_callback = Direct (Fn 0), reg_listener = Fn 0, reg_context = Undefined\<rparr>] \<and>
   calls (tick (foldl (perform (\<lambda>v. [])) (once_then_on (\<lambda>v. []) ''event1'' (Fn 0) Undefined fresh)
                  [Emit (Str ''event1'') [Num 1], RunNext, Emit (Str ''event1'') [Num 2], Emit (Str ''event1'') [Num 3]]))
     = [(Fn 0, Undefined, [Num 1]), (Fn 0, Undefined, [Num 2]), (Fn 0, Undefined, [Num 3])] \<and>
   registrations (tick (foldl (perform (\<lambda>v. [])) (once_then_on (\<lambda>v. []) ''event1'' (Fn 0) Undefined fresh)
                  [Emit (Str ''event1'') [Num 1], RunNext, Emit (Str ''event1'') [Num 2], Emit (Str ''event1'') [Num 3]])) ''event1''
     = [\<lparr>reg_callback = Direct (Fn 0), reg_listener = Fn 0, reg_context = Undefined\<rparr>]"
proof -
  have free: "listener_free (Fn 0) fresh"
    by (simp add: listener_free_def fresh_def registrations_def)
  have rf: "registrations fresh ''event1'' = []" and mf: "microtasks fresh = []" and cf: "calls fresh = []"
    by (simp_all add: fresh_def registrations_def)
  show ?thesis
    using C1_on_overrides_once[where f = "Fn 0" and c = Undefined and K = "\<lambda>v. []" and e = "''event1''"
      and st = fresh
      and as = "[Emit (Str ''event1'') [Num 1], RunNext, Emit (Str ''event1'') [Num 2], Emit (Str ''event1'') [Num 3]]"]
      free
    by (simp add: rf mf cf direct_reg_def Let_def)
qed

text \<open>
  Without these conditions the property fails. \<^verbatim>\<open>once("toString", f)\<close> on a fresh
  emitter is stopped by a \<^verbatim>\<open>TypeError\<close>. With \<^verbatim>\<open>NaN\<close> as context, \<^verbatim>\<open>once\<close> then \<^verbatim>\<open>on\<close>
  leave two registrations, the one-off wrapper and the direct one. And when an emission
  of \<open>e\<close> is pending after an earlier \<^verbatim>\<open>once(e, f)\<close>, the calls \<^verbatim>\<open>once(e, f)\<close> and
  \<^verbatim>\<open>on(e, f)\<close> leave the direct registration, but the pending wrapper, when it runs,
  finds it, invokes \<open>f\<close> and removes it: the next emission schedules nothing, and \<open>f\<close> was
  invoked once in all.
\<close>

theorem C1_counterexample:
  "once (\<lambda>v. []) (Str ''toString'') (Fn 0) Undefined fresh = Crashed (fresh\<lparr>copied := {''toString''}\<rparr>)
   \<and> registrations (once_then_on (\<lambda>v. []) ''e'' (Fn 0) NaN fresh) ''e''
       = [\<lparr>reg_callback = OneOff ''e'' (Fn 0) NaN, reg_listener = Fn 0, reg_context = NaN\<rparr>,
          \<lparr>reg_callback = Direct (Fn 0), reg_listener = Fn 0, reg_context = NaN\<rparr>]
   \<and> registrations (once_then_on (\<lambda>v. []) ''e'' (Fn 0) Undefined
         (state_of (emit (\<lambda>v. []) (Str ''e'') [] (state_of (once (\<lambda>v. []) (Str ''e'') (Fn 0) Undefined fresh))))) ''e''
       = [\<lparr>reg_callback = Direct (Fn 0), reg_listener = Fn 0, reg_context = Undefined\<rparr>]
   \<and> registrations (run_next (once_then_on (\<lambda>v. []) ''e'' (Fn 0) Undefined
         (state_of (emit (\<lambda>v. []) (Str ''e'') [] (state_of (once (\<lambda>v. []) (Str ''e'') (Fn 0) Undefined fresh)))))) ''e''
       = []
   \<and> calls (tick (state_of (emit (\<lambda>v. []) (Str ''e'') [] (run_next (once_then_on (\<lambda>v. []) ''e'' (Fn 0) Undefined
         (state_of (emit (\<lambda>v. []) (Str ''e'') [] (state_of (once (\<lambda>v. []) (Str ''e'') (Fn 0) Undefined fresh)))))))))
       = [(Fn 0, Undefined, [])]"
proof (intro conjI)
  let ?K = "\<lambda>v::jsval. []::string"
  let ?W = "\<lparr>reg_callback = OneOff ''e'' (Fn 0) Undefined, reg_listener = Fn 0, reg_context = Undefined\<rparr>"
  let ?D = "\<lparr>reg_callback = Direct (Fn 0), reg_listener = Fn 0, reg_context = Undefined\<rparr>"
  let ?s1 = "state_of (once ?K (Str ''e'') (Fn 0) Undefined fresh)"
  let ?s2 = "state_of (emit ?K (Str ''e'') [] ?s1)"
  let ?s3 = "once_then_on ?K ''e'' (Fn 0) Undefined ?s2"
  show "once ?K (Str ''toString'') (Fn 0) Undefined fresh = Crashed (fresh\<lparr>copied := {''toString''}\<rparr>)"
    by (simp add: once_def add_crashes reads_fresh object_prototype_names_def) (simp add: fresh_def)
  have rf: "registrations fresh ''e'' = []"
    by (simp add: fresh_def registrations_def)
  have ne: "reads fresh ''e'' \<noteq> NotArray"
    by (simp add: reads_fresh object_prototype_names_def)
  show "registrations (once_then_on ?K ''e'' (Fn 0) NaN fresh) ''e''
       = [\<lparr>reg_callback = OneOff ''e'' (Fn 0) NaN, reg_listener = Fn 0, reg_context = NaN\<rparr>,
          \<lparr>reg_callback = Direct (Fn 0), reg_listener = Fn 0, reg_context = NaN\<rparr>]"
    using ne by (simp add: once_then_on_def registrations_on_single registrations_once rf removed_by_def)
  have r1: "registrations ?s1 ''e'' = [?W]"
    using ne by (simp add: registrations_once rf)
  have n1: "reads ?s1 ''e'' \<noteq> NotArray"
    using r1 by (intro reads_of_own own_of_registrations) simp
  have m2: "microtasks ?s2 = [\<lparr>task_listener = ?W, task_args = []\<rparr>]"
    using n1 by (simp add: emit_Str r1 microtasks_once) (simp add: fresh_def)
  have r2: "registrations ?s2 ''e'' = [?W]"
    by (simp add: registrations_emit r1)
  have n2: "reads ?s2 ''e'' \<noteq> NotArray"
    by (simp add: reads_emit n1)
  have c2: "calls ?s2 = []"
    by (simp add: calls_emit calls_once) (simp add: fresh_def)
  show r3: "registrations ?s3 ''e'' = [?D]"
    using n2 by (simp add: once_then_on_def registrations_on_single registrations_once r2 removed_by_def has_pair_def)
  have m3: "microtasks ?s3 = [\<lparr>task_listener = ?W, task_args = []\<rparr>]"
    by (simp add: once_then_on_def microtasks_on microtasks_once m2)
  have c3: "calls ?s3 = []"
    by (simp add: once_then_on_def calls_on calls_once c2)
  let ?s3' = "?s3\<lparr>microtasks := []\<rparr>"
  have r3': "registrations ?s3' ''e'' = [?D]"
    using r3 by (simp add: registrations_microtasks_update)
  have p: "list_ex (has_pair (Fn 0) Undefined) (registrations ?s3' ''e'')"
    unfolding r3' by (simp add: has_pair_def)
  have step: "run_next ?s3 = removeEventListener ''e'' (Fn 0) Undefined (invoke (Fn 0) Undefined [] ?s3')"
    using oneOff_present[OF p, of Undefined "[]"] by (simp add: run_next_def m3 run_task_OneOff)
  show r4: "registrations (run_next ?s3) ''e'' = []"
    unfolding step using r3' by (simp add: registrations_remove registrations_invoke removed_by_def)
  have c4: "calls (run_next ?s3) = [(Fn 0, Undefined, [])]"
    unfolding step using c3 by (simp add: calls_remove calls_invoke)
  have m4: "microtasks (run_next ?s3) = []"
    unfolding step by (simp add: microtasks_remove microtasks_invoke)
  have o4: "eventListeners (run_next ?s3) ''e'' \<noteq> None"
    unfolding step by (rule own_remove)
  have "emit ?K (Str ''e'') [] (run_next ?s3) = Returned (run_next ?s3)"
    using emit_Str[OF reads_of_own[OF o4], of ?K "[]"] r4 m4 by simp
  then show "calls (tick (state_of (emit ?K (Str ''e'') [] (run_next ?s3)))) = [(Fn 0, Undefined, [])]"
    using c4 m4 by (simp add: tick_Nil)
qed

subsection \<open>C2: a \<^verbatim>\<open>once\<close> listener fires at most once\<close>




subsection \<open>C3: strings and arrays of event names\<close>




subsection \<open>C4: what \<^verbatim>\<open>on\<close> removes before it adds\<close>

text \<open>
  C4. The claim is that \<^verbatim>\<open>on(e, f, c)\<close> leaves a registration \<open>(f, c')\<close> with another
  context untouched, also when \<open>c\<close> is omitted. With a context it does
  (\<open>on_with_context_keeps_other_contexts\<close>). Without one, \<^verbatim>\<open>_removeEventListener\<close>
  takes the missing context for any context: after \<^verbatim>\<open>on(e, f, ctx)\<close>, the call
  \<^verbatim>\<open>on(e, f)\<close> leaves \<open>(f, undefined)\<close> as the only registration, and \<open>(f, ctx)\<close> is gone;
  in the other order both registrations stay.
\<close>

theorem C4_on_without_context_removes_other_contexts:
  "registrations (state_of (on K (Str ''e'') (Fn 0) (Obj 0) fresh)) ''e''
     = [\<lparr>reg_callback = Direct (Fn 0), reg_listener = Fn 0, reg_context = Obj 0\<rparr>]
   \<and> registrations (state_of (on K (Str ''e'') (Fn 0) Undefined
                        (state_of (on K (Str ''e'') (Fn 0) (Obj 0) fresh)))) ''e''
     = [\<lparr>reg_callback = Direct (Fn 0), reg_listener = Fn 0, reg_context = Undefined\<rparr>]
   \<and> registrations (state_of (on K (Str ''e'') (Fn 0) (Obj 0)
                        (state_of (on K (Str ''e'') (Fn 0) Undefined fresh)))) ''e''
     = [\<lparr>reg_callback = Direct (Fn 0), reg_listener = Fn 0, reg_context = Undefined\<rparr>,
        \<lparr>reg_callback = Direct (Fn 0), reg_listener = Fn 0, reg_context = Obj 0\<rparr>]"
  by (simp add: registrations_on_single removed_by_def) (simp add: fresh_def registrations_def)

subsection \<open>C5: what \<^verbatim>\<open>off\<close> removes\<close>

text \<open>
  C5. \<^verbatim>\<open>off\<close> removes exactly the registrations its arguments select, and always returns.
  Without event names (\<open>eventNames\<close> falsy) every registration of every event is gone.
  With event names (\<open>eventNames\<close> truthy: a non-empty string or an array) the events that
  are not named keep their registrations, and under each named event: with no listener
  nothing is left; with a (truthy) listener and no context exactly the registrations of that
  listener are removed, whatever their context; with a listener and a context exactly the
  registrations with that identity pair are removed, so the listener stays under other
  contexts. Naming only events that have no entry changes no event's registrations.
\<close>

theorem C5_off_cascade:
  "(falsy eventNames \<longrightarrow>
      (\<forall>n. registrations (state_of (off K eventNames listener context st)) n = []))
   \<and> (\<not> falsy eventNames \<longrightarrow>
      (\<forall>n. n \<notin> set (map (property_key K) (toEventNamesList eventNames)) \<longrightarrow>
           registrations (state_of (off K eventNames listener context st)) n = registrations st n)
      \<and> (listener = Undefined \<longrightarrow>
           (\<forall>n\<in>set (map (property_key K) (toEventNamesList eventNames)).
              registrations (state_of (off K eventNames listener context st)) n = []))
      \<and> (\<not> falsy listener \<and> context = Undefined \<longrightarrow>
           (\<forall>n\<in>set (map (property_key K) (toEventNamesList eventNames)).
              registrations (state_of (off K eventNames listener context st)) n =
                filter (\<lambda>r. \<not> strict_eq (reg_listener r) listener) (registrations st n)))
      \<and> (\<not> falsy listener \<and> context \<noteq> Undefined \<longrightarrow>
           (\<forall>n\<in>set (map (property_key K) (toEventNamesList eventNames)).
              registrations (state_of (off K eventNames listener context st)) n =
                filter (\<lambda>r. \<not> has_pair listener context r) (registrations st n)))
      \<and> ((\<forall>n\<in>set (map (property_key K) (toEventNamesList eventNames)). eventListeners st n = None) \<longrightarrow>
           (\<forall>n. registrations (state_of (off K eventNames listener context st)) n = registrations st n)))
   \<and> (\<exists>st'. off K eventNames listener context st = Returned st')"
proof -
  have unknown: "eventListeners st n = None \<Longrightarrow> registrations st n = []" for n
    by (simp add: registrations_def)
  show ?thesis
    by (auto simp: registrations_off removed_by_def has_pair_def unknown
          simp del: set_map)
       (simp_all add: off_def)
qed

theorem C5_witness:
  "registrations (state_of (off (\<lambda>v. []) (Str ''e'') (Fn 0) (Obj 1)
      \<lparr>eventListeners = [''e'' \<mapsto> [\<lparr>reg_callback = Direct (Fn 0), reg_listener = Fn 0, reg_context = Obj 1\<rparr>,
                                      \<lparr>reg_callback = Direct (Fn 0), reg_listener = Fn 0, reg_context = Obj 2\<rparr>]],
        microtasks = [], calls = [], copied = {}\<rparr>)) ''e''
     = [\<lparr>reg_callback = Direct (Fn 0), reg_listener = Fn 0, reg_context = Obj 2\<rparr>]
   \<and> registrations (state_of (off (\<lambda>v. []) (Str ''e'') (Fn 0) Undefined
      \<lparr>eventListeners = [''e'' \<mapsto> [\<lparr>reg_callback = Direct (Fn 0), reg_listener = Fn 0, reg_context = Obj 1\<rparr>,
                                      \<lparr>reg_callback = Direct (Fn 0), reg_listener = Fn 0, reg_context = Obj 2\<rparr>]],
        microtasks = [], calls = [], copied = {}\<rparr>)) ''e''
     = []
   \<and> registrations (state_of (off (\<lambda>v. []) Undefined Undefined Undefined
      \<lparr>eventListeners = [''e'' \<mapsto> [\<lparr>reg_callback = Direct (Fn 0), reg_listener = Fn 0, reg_context = Obj 1\<rparr>,
                                      \<lparr>reg_callback = Direct (Fn 0), reg_listener = Fn 0, reg_context = Obj 2\<rparr>]],
        microtasks = [], calls = [], copied = {}\<rparr>)) ''e''
     = []"
  using
    C5_off_cascade[of "Str ''e''" "\<lambda>v. []" "Fn 0" "Obj 1"
      "\<lparr>eventListeners = [''e'' \<mapsto> [\<lparr>reg_callback = Direct (Fn 0), reg_listener = Fn 0, reg_context = Obj 1\<rparr>,
                                      \<lparr>reg_callback = Direct (Fn 0), reg_listener = Fn 0, reg_context = Obj 2\<rparr>]],
        microtasks = [], calls = [], copied = {}\<rparr>"]
    C5_off_cascade[of "Str ''e''" "\<lambda>v. []" "Fn 0" Undefined
      "\<lparr>eventListeners = [''e'' \<mapsto> [\<lparr>reg_callback = Direct (Fn 0), reg_listener = Fn 0, reg_context = Obj 1\<rparr>,
                                      \<lparr>reg_callback = Direct (Fn 0), reg_listener = Fn 0, reg_context = Obj 2\<rparr>]],
        microtasks = [], calls = [], copied = {}\<rparr>"]
    C5_off_cascade[of Undefined "\<lambda>v. []" Undefined Undefined
      "\<lparr>eventListeners = [''e'' \<mapsto> [\<lparr>reg_callback = Direct (Fn 0), reg_listener = Fn 0, reg_context = Obj 1\<rparr>,
                                      \<lparr>reg_callback = Direct (Fn 0), reg_listener = Fn 0, reg_context = Obj 2\<rparr>]],
        microtasks = [], calls = [], copied = {}\<rparr>"]
  by (simp add: registrations_def has_pair_def)

subsection \<open>C6: the validation of \<^verbatim>\<open>once\<close>\<close>

text \<open>
  C6. \<^verbatim>\<open>once\<close> throws a validation error when the event name is not a string (an array
  of strings is not one), and a different validation error when the event name is a
  string and the listener is not a function; the state at the throw is the state before
  the call. When the event name is a string and the listener a function it throws no
  validation error, whatever the string contains.
\<close>

theorem C6_once_validation:
  "(typeof eventName \<noteq> ''string'' \<longrightarrow>
      once K eventName listener context st = Thrown (EventNameError (typeof eventName)) st)
   \<and> (typeof eventName = ''string'' \<and> typeof listener \<noteq> ''function'' \<longrightarrow>
      once K eventName listener context st = Thrown (ListenerError (typeof listener)) st)
   \<and> (typeof eventName = ''string'' \<and> typeof listener = ''function'' \<longrightarrow>
      (\<forall>err st'. once K eventName listener context st \<noteq> Thrown err st'))
   \<and> EventNameError a \<noteq> ListenerError b"
  by (simp add: once_def add_not_thrown)

theorem C6_witness:
  "typeof (Arr 0 [Str ''event1'']) \<noteq> ''string'' \<and>
   once (\<lambda>v. []) (Arr 0 [Str ''event1'']) (Fn 0) Undefined fresh = Thrown (EventNameError ''object'') fresh \<and>
   typeof (Str ''event1'') = ''string'' \<and> typeof Null \<noteq> ''function'' \<and>
   once (\<lambda>v. []) (Str ''event1'') Null Undefined fresh = Thrown (ListenerError ''object'') fresh \<and>
   typeof (Str ''event1 event2'') = ''string'' \<and> typeof (Fn 0) = ''function'' \<and>
   (\<forall>err st'. once (\<lambda>v. []) (Str ''event1 event2'') (Fn 0) Undefined fresh \<noteq> Thrown err st')"
  using C6_once_validation[of "Arr 0 [Str ''event1'']" "\<lambda>v. []" "Fn 0" Undefined fresh]
    C6_once_validation[of "Str ''event1''" "\<lambda>v. []" Null Undefined fresh]
    C6_once_validation[of "Str ''event1 event2''" "\<lambda>v. []" "Fn 0" Undefined fresh]
  by simp

text \<open>
  There is no check for spaces: \<^verbatim>\<open>once("event1 event2", f)\<close> returns, with \<open>f\<close> registered
  under that one name.
\<close>

theorem C6_counterexample:
  "once (\<lambda>v. []) (Str ''event1 event2'') (Fn 0) Undefined fresh
     = Returned \<lparr>eventListeners =
                   [''event1 event2'' \<mapsto>
                      [\<lparr>reg_callback = OneOff ''event1 event2'' (Fn 0) Undefined,
                        reg_listener = Fn 0, reg_context = Undefined\<rparr>]],
                 microtasks = [], calls = [], copied = {}\<rparr>"
  by (simp add: once_def addEventListener_def ensureListenersHashExists_def Let_def registrations_def
        findEventListener_def fresh_def reads_def store_def object_prototype_names_def)

subsection \<open>C7: no duplicate registrations\<close>

text \<open>
  C7. In every state that calls of \<^verbatim>\<open>on\<close>, \<^verbatim>\<open>once\<close>, \<^verbatim>\<open>off\<close> and \<^verbatim>\<open>emit\<close> with any
  arguments, and the scheduler's steps, produce from a fresh emitter, and for every event
  name, no two registrations of that event have listeners that are \<^verbatim>\<open>===\<close> and contexts
  that are \<^verbatim>\<open>===\<close>. For a context other than \<^verbatim>\<open>NaN\<close> registration is idempotent: in any
  state, a second \<^verbatim>\<open>on\<close>, or a second \<^verbatim>\<open>once\<close>, with the same arguments changes no
  event's registrations.
\<close>

theorem C7_no_duplicate_registrations:
  "distinct_pairs (registrations (foldl (perform K) fresh as) e)
   \<and> (context \<noteq> NaN \<longrightarrow>
        registrations (state_of (on K eventNames listener context
                        (state_of (on K eventNames listener context st)))) e
          = registrations (state_of (on K eventNames listener context st)) e)
   \<and> (context \<noteq> NaN \<longrightarrow>
        registrations (state_of (once K eventName listener context
                        (state_of (once K eventName listener context st)))) e
          = registrations (state_of (once K eventName listener context st)) e)"
proof (intro conjI impI)
  show "distinct_pairs (registrations (foldl (perform K) fresh as) e)"
    using inv_actions[OF inv_fresh, of K as] by (simp add: registry_distinct_def)
next
  assume c: "context \<noteq> NaN"
  show "registrations (state_of (on K eventNames listener context
                        (state_of (on K eventNames listener context st)))) e
       = registrations (state_of (on K eventNames listener context st)) e"
  proof -
    have rs: "typeof listener = ''function'' \<Longrightarrow>
        removed_by listener context \<lparr>reg_callback = Direct listener, reg_listener = listener, reg_context = context\<rparr>"
      using c removed_by_self[OF function_not_NaN] by simp
    show ?thesis
      using rs by (auto simp: registrations_on[OF c] simp del: set_map)
  qed
next
  assume c: "context \<noteq> NaN"
  let ?st1 = "state_of (once K eventName listener context st)"
  let ?n = "property_key K eventName"
  show "registrations (state_of (once K eventName listener context ?st1)) e = registrations ?st1 e"
  proof (cases "typeof eventName = ''string'' \<and> typeof listener = ''function'' \<and> e = ?n
         \<and> reads ?st1 ?n \<noteq> NotArray")
    case False
    then show ?thesis
      by (auto simp: registrations_once[of K eventName listener "context" "?st1"])
  next
    case True
    then have l: "listener \<noteq> NaN" by (auto simp: function_not_NaN)
    have "list_ex (has_pair listener context) (registrations ?st1 ?n)"
    proof (cases "reads st ?n \<noteq> NotArray \<and> \<not> list_ex (has_pair listener context) (registrations st ?n)")
      case True
      then show ?thesis
        using \<open>typeof eventName = ''string'' \<and> typeof listener = ''function'' \<and> e = ?n \<and> reads ?st1 ?n \<noteq> NotArray\<close>
          has_pair_self[OF l c]
        by (simp add: registrations_once)
    next
      case False
      have "reads st ?n \<noteq> NotArray"
      proof
        assume na: "reads st ?n = NotArray"
        have "reads ?st1 ?n = NotArray"
          using na by (auto simp: once_def add_crashes reads_def split: option.splits if_splits)
        with True show False by simp
      qed
      with False show ?thesis
        by (simp add: registrations_once)
    qed
    then show ?thesis
      by (simp add: registrations_once[of K eventName listener "context" "?st1"])
  qed
qed

theorem C7_witness:
  "Obj 0 \<noteq> NaN \<and>
   distinct_pairs (registrations (foldl (perform (\<lambda>v. [])) fresh
       [On (Str ''e'') (Fn 0) (Obj 0), Once (Str ''e'') (Fn 0) (Obj 0), On (Str ''e'') (Fn 0) (Obj 0)]) ''e'')
   \<and> registrations (state_of (on (\<lambda>v. []) (Str ''e'') (Fn 0) (Obj 0)
                       (state_of (on (\<lambda>v. []) (Str ''e'') (Fn 0) (Obj 0) fresh)))) ''e''
     = [\<lparr>reg_callback = Direct (Fn 0), reg_listener = Fn 0, reg_context = Obj 0\<rparr>]"
  using C7_no_duplicate_registrations[of "\<lambda>v. []"
      "[On (Str ''e'') (Fn 0) (Obj 0), Once (Str ''e'') (Fn 0) (Obj 0), On (Str ''e'') (Fn 0) (Obj 0)]" "''e''"
      "Obj 0" "Str ''e''" "Fn 0" fresh]
  by (simp add: registrations_on_single)
     (simp add: fresh_def registrations_def)

text \<open>
  \<^verbatim>\<open>NaN\<close> is not \<^verbatim>\<open>===\<close> to itself: with \<^verbatim>\<open>NaN\<close> as context neither the removal nor the
  lookup finds the earlier registration, and every \<^verbatim>\<open>on\<close>, and every \<^verbatim>\<open>once\<close>, adds
  another registration with the same listener and the same context.
\<close>

theorem C7_counterexample:
  "registrations (state_of (on (\<lambda>v. []) (Str ''e'') (Fn 0) NaN fresh)) ''e''
     = [\<lparr>reg_callback = Direct (Fn 0), reg_listener = Fn 0, reg_context = NaN\<rparr>]
   \<and> registrations (state_of (on (\<lambda>v. []) (Str ''e'') (Fn 0) NaN
                       (state_of (on (\<lambda>v. []) (Str ''e'') (Fn 0) NaN fresh)))) ''e''
     = [\<lparr>reg_callback = Direct (Fn 0), reg_listener = Fn 0, reg_context = NaN\<rparr>,
        \<lparr>reg_callback = Direct (Fn 0), reg_listener = Fn 0, reg_context = NaN\<rparr>]
   \<and> registrations (state_of (once (\<lambda>v. []) (Str ''e'') (Fn 0) NaN
                       (state_of (once (\<lambda>v. []) (Str ''e'') (Fn 0) NaN fresh)))) ''e''
     = [\<lparr>reg_callback = OneOff ''e'' (Fn 0) NaN, reg_listener = Fn 0, reg_context = NaN\<rparr>,
        \<lparr>reg_callback = OneOff ''e'' (Fn 0) NaN, reg_listener = Fn 0, reg_context = NaN\<rparr>]"
proof -
  have rf: "\<And>n. registrations fresh n = []"
    by (simp add: fresh_def registrations_def)
  have n: "reads fresh ''e'' \<noteq> NotArray"
    by (simp add: reads_fresh object_prototype_names_def)
  let ?s1 = "state_of (once (\<lambda>v. []) (Str ''e'') (Fn 0) NaN fresh)"
  have r1: "registrations ?s1 ''e'' = [\<lparr>reg_callback = OneOff ''e'' (Fn 0) NaN, reg_listener = Fn 0, reg_context = NaN\<rparr>]"
    using n by (simp add: registrations_once rf)
  have n1: "reads ?s1 ''e'' \<noteq> NotArray"
    using r1 by (intro reads_of_own own_of_registrations) simp
  have "registrations (state_of (once (\<lambda>v. []) (Str ''e'') (Fn 0) NaN ?s1)) ''e''
     = [\<lparr>reg_callback = OneOff ''e'' (Fn 0) NaN, reg_listener = Fn 0, reg_context = NaN\<rparr>,
        \<lparr>reg_callback = OneOff ''e'' (Fn 0) NaN, reg_listener = Fn 0, reg_context = NaN\<rparr>]"
    using n1 by (simp add: registrations_once[of _ _ _ _ "?s1"] r1 has_pair_def)
  then show ?thesis
    by (simp add: registrations_on_single rf removed_by_def)
qed

subsection \<open>C8: \<^verbatim>\<open>emit\<close> only schedules\<close>




subsection \<open>C9: validation errors change nothing\<close>

text \<open>
  C9. Whenever \<^verbatim>\<open>on\<close>, \<^verbatim>\<open>once\<close> or \<^verbatim>\<open>emit\<close> throws a validation error, the state at
  the throw is the state before the call: nothing was registered and nothing was
  scheduled. And they do throw on invalid arguments: \<^verbatim>\<open>on\<close> when the event names are
  neither a string nor a non-empty array of strings or the listener is not a function,
  \<^verbatim>\<open>once\<close> when the event name is not a string or the listener is not a function,
  \<^verbatim>\<open>emit\<close> when the event names are neither a string nor a non-empty array of strings.
  (A \<^verbatim>\<open>TypeError\<close> of the runtime is not a validation error: it is the result
  \<open>Crashed\<close>, and no invalid argument leads to it.)
\<close>

theorem C9_validation_errors_change_nothing:
  "(on K eventNames listener context st = Thrown err st' \<longrightarrow> st' = st)
   \<and> (once K eventNames listener context st = Thrown err st' \<longrightarrow> st' = st)
   \<and> (emit K eventNames eventArgs st = Thrown err st' \<longrightarrow> st' = st)
   \<and> ((typeof eventNames \<noteq> ''string'' \<and> \<not> isArrayOfStrings eventNames) \<or> typeof listener \<noteq> ''function''
        \<longrightarrow> (\<exists>e. on K eventNames listener context st = Thrown e st))
   \<and> (typeof eventNames \<noteq> ''string'' \<or> typeof listener \<noteq> ''function''
        \<longrightarrow> (\<exists>e. once K eventNames listener context st = Thrown e st))
   \<and> (typeof eventNames \<noteq> ''string'' \<and> \<not> isArrayOfStrings eventNames
        \<longrightarrow> (\<exists>e. emit K eventNames eventArgs st = Thrown e st))"
  by (auto simp: on_def once_def emit_def Let_def add_not_thrown add_loop_not_thrown
      emit_loop_not_thrown split: if_splits)

theorem C9_witness:
  "(\<exists>e. on (\<lambda>v. []) (Arr 0 []) (Fn 0) Undefined
           \<lparr>eventListeners = [''event1'' \<mapsto> []], microtasks = [], calls = [], copied = {}\<rparr>
         = Thrown e \<lparr>eventListeners = [''event1'' \<mapsto> []], microtasks = [], calls = [], copied = {}\<rparr>)
   \<and> (\<exists>e. once (\<lambda>v. []) (Arr 0 []) (Fn 0) Undefined
           \<lparr>eventListeners = [''event1'' \<mapsto> []], microtasks = [], calls = [], copied = {}\<rparr>
         = Thrown e \<lparr>eventListeners = [''event1'' \<mapsto> []], microtasks = [], calls = [], copied = {}\<rparr>)
   \<and> (\<exists>e. emit (\<lambda>v. []) (Arr 0 []) []
           \<lparr>eventListeners = [''event1'' \<mapsto> []], microtasks = [], calls = [], copied = {}\<rparr>
         = Thrown e \<lparr>eventListeners = [''event1'' \<mapsto> []], microtasks = [], calls = [], copied = {}\<rparr>)"
  using C9_validation_errors_change_nothing[of "\<lambda>v. []" "Arr 0 []" "Fn 0" Undefined
      "\<lparr>eventListeners = [''event1'' \<mapsto> []], microtasks = [], calls = [], copied = {}\<rparr>" _ _ "[]"]
  by simp

subsection \<open>C10: \<^verbatim>\<open>off\<close> with a falsy listener\<close>

text \<open>
  C10. When the listener argument of \<^verbatim>\<open>off\<close> is falsy (\<^verbatim>\<open>undefined\<close>, \<^verbatim>\<open>null\<close>,
  \<^verbatim>\<open>false\<close>, \<^verbatim>\<open>0\<close>, \<^verbatim>\<open>NaN\<close>, the empty string), no registration is left under any of
  the named events, whatever the context argument: the call does what the same call
  without a context does. It returns. The context narrows what is removed only with a
  truthy listener: then the registrations removed under a named event are those of that
  listener whose context is the given one, or of any context when none is given.
\<close>

theorem C10_off_falsy_listener_ignores_context:
  assumes "falsy listener"
  shows "(\<forall>n\<in>set (map (property_key K) (toEventNamesList eventNames)).
            registrations (state_of (off K eventNames listener context st)) n = [])
       \<and> off K eventNames listener context st = off K eventNames listener Undefined st
       \<and> (\<exists>st'. off K eventNames listener context st = Returned st')
       \<and> (\<not> falsy eventNames \<and> \<not> falsy truthyListener \<longrightarrow>
            (\<forall>n\<in>set (map (property_key K) (toEventNamesList eventNames)).
               registrations (state_of (off K eventNames truthyListener context st)) n =
                 filter (\<lambda>r. \<not> removed_by truthyListener context r) (registrations st n)))"
proof -
  have "removeEventListener n listener context s = removeEventListener n listener Undefined s" for n s
    using assms by (simp add: removeEventListener_def)
  then have "off K eventNames listener context st = off K eventNames listener Undefined st"
    by (simp add: off_def)
  moreover have "\<exists>st'. off K eventNames listener context st = Returned st'"
    by (simp add: off_def)
  ultimately show ?thesis
    using assms by (simp add: registrations_off del: set_map)
qed

theorem C10_witness:
  "falsy Null \<and>
   registrations (state_of (off (\<lambda>v. []) (Str ''e'') Null (Obj 1)
      \<lparr>eventListeners = [''e'' \<mapsto> [\<lparr>reg_callback = Direct (Fn 0), reg_listener = Fn 0, reg_context = Obj 1\<rparr>,
                                      \<lparr>reg_callback = Direct (Fn 0), reg_listener = Fn 0, reg_context = Obj 2\<rparr>]],
        microtasks = [], calls = [], copied = {}\<rparr>)) ''e'' = []"
  using C10_off_falsy_listener_ignores_context[of Null "\<lambda>v. []" "Str ''e''" "Obj 1"
      "\<lparr>eventListeners = [''e'' \<mapsto> [\<lparr>reg_callback = Direct (Fn 0), reg_listener = Fn 0, reg_context = Obj 1\<rparr>,
                                      \<lparr>reg_callback = Direct (Fn 0), reg_listener = Fn 0, reg_context = Obj 2\<rparr>]],
        microtasks = [], calls = [], copied = {}\<rparr>", THEN conjunct1]
  by simp

end
